theory Spec2Isabelle
  imports Main "HOL-Library.Sublist" "HOL-Library.AList"
begin

section \<open>Python strings and the string methods the parsers call\<close>

text \<open>
  A Python \<open>str\<close> is modelled as a \<open>string\<close> (a list of \<open>char\<close>): every character is
  a code point below 256. The separators, markers and keywords of the parsers are ASCII.
\<close>

text \<open>\<open>str.isspace\<close> on one character; the regular expression class \<open>\s\<close> is the same set.\<close>

definition py_isspace :: "char \<Rightarrow> bool" where
  "py_isspace c = (c \<in> set [CHR 0x09, CHR 0x0A, CHR 0x0B, CHR 0x0C, CHR 0x0D,
     CHR 0x1C, CHR 0x1D, CHR 0x1E, CHR 0x1F, CHR 0x20, CHR 0x85, CHR 0xA0])"

text \<open>\<open>s.strip()\<close>\<close>

definition py_strip :: "string \<Rightarrow> string" where
  "py_strip s = rev (dropWhile py_isspace (rev (dropWhile py_isspace s)))"

text \<open>\<open>s.startswith(p)\<close>\<close>

definition py_startswith :: "string \<Rightarrow> string \<Rightarrow> bool" where
  "py_startswith s p = prefix p s"

text \<open>\<open>k in s\<close> on strings: \<open>k\<close> occurs in \<open>s\<close> as a contiguous substring.\<close>

definition py_in :: "string \<Rightarrow> string \<Rightarrow> bool" where
  "py_in k s = sublist k s"

text \<open>\<open>any(keyword in token for keyword in keywords)\<close>\<close>

definition any_keyword_in :: "string list \<Rightarrow> string \<Rightarrow> bool" where
  "any_keyword_in keywords token = list_ex (\<lambda>keyword. py_in keyword token) keywords"

text \<open>\<open>sep.join(xs)\<close>\<close>

fun py_join :: "string \<Rightarrow> string list \<Rightarrow> string" where
  "py_join sep [] = []"
| "py_join sep [x] = x"
| "py_join sep (x # y # ys) = x @ sep @ py_join sep (y # ys)"

text \<open>
  \<open>s.split(sep)\<close> for a separator of one character, which is what every call site of the
  parsers passes: the pieces between the occurrences of \<open>sep\<close>, never an empty list.
\<close>

fun py_split_from :: "char \<Rightarrow> string \<Rightarrow> string \<Rightarrow> string list" where
  "py_split_from sep cur [] = [cur]"
| "py_split_from sep cur (c # cs) =
     (if c = sep then cur # py_split_from sep [] cs else py_split_from sep (cur @ [c]) cs)"

definition py_split :: "char \<Rightarrow> string \<Rightarrow> string list" where
  "py_split sep s = py_split_from sep [] s"

text \<open>
  \<open>s.splitlines()\<close>: the line boundaries are \<open>\n\<close>, \<open>\r\<close>, \<open>\r\n\<close>, \<open>\v\<close>, \<open>\f\<close>, the
  separators \<open>0x1C\<close> to \<open>0x1E\<close> and \<open>0x85\<close>; the boundaries are dropped and a final boundary
  opens no further line.
\<close>

definition is_line_boundary :: "char \<Rightarrow> bool" where
  "is_line_boundary c = (c \<in> set [CHR 0x0A, CHR 0x0B, CHR 0x0C, CHR 0x0D,
     CHR 0x1C, CHR 0x1D, CHR 0x1E, CHR 0x85])"

fun py_splitlines_from :: "string \<Rightarrow> string \<Rightarrow> string list" where
  "py_splitlines_from cur [] = (if cur = [] then [] else [cur])"
| "py_splitlines_from cur [c] =
     (if is_line_boundary c then [cur] else [cur @ [c]])"
| "py_splitlines_from cur (c # d # cs) =
     (if c = CHR 0x0D \<and> d = CHR 0x0A then cur # py_splitlines_from [] cs
      else if is_line_boundary c then cur # py_splitlines_from [] (d # cs)
      else py_splitlines_from (cur @ [c]) (d # cs))"

definition py_splitlines :: "string \<Rightarrow> string list" where
  "py_splitlines s = py_splitlines_from [] s"

text \<open>
  \<open>s.replace(old, new)\<close>: the occurrences of \<open>old\<close> are found from left to right and do
  not overlap; an empty \<open>old\<close> matches before every character and at the end.
\<close>

function py_replace :: "string \<Rightarrow> string \<Rightarrow> string \<Rightarrow> string" where
  "py_replace old new s =
     (if old = [] then new @ concat (map (\<lambda>c. c # new) s)
      else if s = [] then []
      else if prefix old s then new @ py_replace old new (drop (length old) s)
      else hd s # py_replace old new (tl s))"
  by pat_completeness auto
termination
  by (relation "measure (\<lambda>(old, new, s). length s)") (auto simp: neq_Nil_conv)

declare py_replace.simps [simp del]

text \<open>
  \<open>re.findall(r'\S+|\n', s)\<close>: at each position the longest run of characters that are
  not whitespace is taken; failing that, a newline is a token of its own; any other
  whitespace character is passed over.
\<close>

function findall_tokens :: "string \<Rightarrow> string list" where
  "findall_tokens [] = []"
| "findall_tokens (c # cs) =
     (if \<not> py_isspace c
        then takeWhile (\<lambda>x. \<not> py_isspace x) (c # cs) #
             findall_tokens (dropWhile (\<lambda>x. \<not> py_isspace x) cs)
      else if c = CHR 0x0A then [CHR 0x0A] # findall_tokens cs
      else findall_tokens cs)"
  by pat_completeness auto
termination
  by (relation "measure length") (auto simp: less_Suc_eq_le length_dropWhile_le)

text \<open>
  \<open>preprocess_file_content_and_generate_token_list_by_mapping\<close>: the entries of the mapping
  are applied in the order of the dictionary, then the text is cut into tokens.
\<close>

definition preprocess_file_content_and_generate_token_list_by_mapping ::
    "string \<Rightarrow> (string \<times> string) list \<Rightarrow> string list" where
  "preprocess_file_content_and_generate_token_list_by_mapping file_content mapping_dict =
     findall_tokens (foldl (\<lambda>content (origin, mapped). py_replace origin mapped content)
       file_content mapping_dict)"

section \<open>The read-ahead generator\<close>

text \<open>
  \<open>_gen_word_read_ahead\<close> yields one triple per word. The generator is modelled by the list
  of the triples it yields; the local variable \<open>following\<close> starts as \<open>None\<close> and is
  assigned only while \<open>index < length - 1\<close>.
\<close>

fun gen_word_read_ahead_loop ::
    "'a list \<Rightarrow> int \<Rightarrow> 'a list option \<Rightarrow> 'a list \<Rightarrow> (nat \<times> 'a \<times> 'a list option) list" where
  "gen_word_read_ahead_loop list_of_words index following [] = []"
| "gen_word_read_ahead_loop list_of_words index following (obj # rest) =
     (let following' = (if index < int (length list_of_words) - 1
                        then Some (drop (nat index + 1) list_of_words) else following)
      in (nat index, obj, following') #
         gen_word_read_ahead_loop list_of_words (index + 1) following' rest)"

definition gen_word_read_ahead :: "'a list \<Rightarrow> (nat \<times> 'a \<times> 'a list option) list" where
  "gen_word_read_ahead list_of_words =
     gen_word_read_ahead_loop list_of_words 0 None list_of_words"

text \<open>What the third component is at each index, written without the loop.\<close>

definition following_at :: "'a list \<Rightarrow> nat \<Rightarrow> 'a list option" where
  "following_at ts i =
     (if i + 1 < length ts then Some (drop (i + 1) ts)
      else if i = 0 then None
      else Some (drop i ts))"

section \<open>Comment stripping\<close>

text \<open>
  The loop of \<open>_filter_source_tokens_without_comments\<close> over the lines, with the flag
  \<open>active_block_comment\<close> as an argument. The tests are made in the order of the source.
\<close>

definition is_region_line :: "string \<Rightarrow> bool" where
  "is_region_line line =
     (py_startswith (py_strip line) ''#Region'' \<or> py_startswith (py_strip line) ''#End Region'')"

fun filter_lines :: "string \<Rightarrow> string \<Rightarrow> string \<Rightarrow> bool \<Rightarrow> string list \<Rightarrow> string list" where
  "filter_lines line_comment_string start_comment_string stop_comment_string
       active_block_comment [] = []"
| "filter_lines line_comment_string start_comment_string stop_comment_string
       active_block_comment (line # source_lines) =
     (if is_region_line line
        then filter_lines line_comment_string start_comment_string stop_comment_string
               active_block_comment source_lines
      else if py_startswith (py_strip line) start_comment_string
        then filter_lines line_comment_string start_comment_string stop_comment_string
               True source_lines
      else if py_startswith (py_strip line) stop_comment_string
        then filter_lines line_comment_string start_comment_string stop_comment_string
               False source_lines
      else if py_startswith (py_strip line) line_comment_string
        then filter_lines line_comment_string start_comment_string stop_comment_string
               active_block_comment source_lines
      else if \<not> active_block_comment
        then line # filter_lines line_comment_string start_comment_string stop_comment_string
               active_block_comment source_lines
      else filter_lines line_comment_string start_comment_string stop_comment_string
               active_block_comment source_lines)"

definition source_lines_of :: "string list \<Rightarrow> string list" where
  "source_lines_of list_of_words = py_splitlines (py_join '' '' list_of_words)"

definition filter_source_tokens_without_comments ::
    "string list \<Rightarrow> string \<Rightarrow> string \<Rightarrow> string \<Rightarrow> string" where
  "filter_source_tokens_without_comments list_of_words line_comment_string
       start_comment_string stop_comment_string =
     py_join ''\<newline>'' (filter_lines line_comment_string start_comment_string
       stop_comment_string False (source_lines_of list_of_words))"

text \<open>
  The lines the filter names. A line opens a block comment when it is no region line and
  starts with the start marker; it closes one when it is no region line, does not start
  with the start marker and starts with the stop marker.
\<close>

definition opens_block :: "string \<Rightarrow> string \<Rightarrow> bool" where
  "opens_block start_comment_string line =
     (\<not> is_region_line line \<and> py_startswith (py_strip line) start_comment_string)"

definition closes_block :: "string \<Rightarrow> string \<Rightarrow> string \<Rightarrow> bool" where
  "closes_block start_comment_string stop_comment_string line =
     (\<not> is_region_line line \<and> \<not> py_startswith (py_strip line) start_comment_string \<and>
      py_startswith (py_strip line) stop_comment_string)"

definition marked_line :: "string \<Rightarrow> string \<Rightarrow> string \<Rightarrow> string \<Rightarrow> bool" where
  "marked_line line_comment_string start_comment_string stop_comment_string line =
     (is_region_line line \<or> py_startswith (py_strip line) start_comment_string \<or>
      py_startswith (py_strip line) stop_comment_string \<or>
      py_startswith (py_strip line) line_comment_string)"

text \<open>
  Line \<open>i\<close> lies inside a block comment: an earlier line opens a block and no line between
  the two closes it.
\<close>

definition inside_block :: "string \<Rightarrow> string \<Rightarrow> string list \<Rightarrow> nat \<Rightarrow> bool" where
  "inside_block start_comment_string stop_comment_string ls i =
     (\<exists>j \<in> {..<i}. opens_block start_comment_string (ls ! j) \<and>
        (\<forall>k \<in> {j<..<i}. \<not> closes_block start_comment_string stop_comment_string (ls ! k)))"

definition survives :: "string \<Rightarrow> string \<Rightarrow> string \<Rightarrow> string list \<Rightarrow> nat \<Rightarrow> bool" where
  "survives line_comment_string start_comment_string stop_comment_string ls i =
     (\<not> marked_line line_comment_string start_comment_string stop_comment_string (ls ! i) \<and>
      \<not> inside_block start_comment_string stop_comment_string ls i)"

text \<open>The flag after one more line, when the flag before it is \<open>a\<close>.\<close>

definition block_step :: "string \<Rightarrow> string \<Rightarrow> bool \<Rightarrow> string \<Rightarrow> bool" where
  "block_step start_comment_string stop_comment_string a line =
     (if opens_block start_comment_string line then True
      else if closes_block start_comment_string stop_comment_string line then False
      else a)"

section \<open>Result records, statistics and the results dictionary\<close>

text \<open>
  The fields the parsers read and write. \<open>abstract_result\<close> holds what a file result and
  an entity result share. An entity result refers to its parent file result; the reference
  is modelled by the parent's \<open>absolute_name\<close>, the full path of the file, which identifies
  the file result object within an analysis.
\<close>

record abstract_result =
  scanned_file_name :: string
  absolute_name :: string
  display_name :: string
  "module_name" :: string
  unique_name :: string
  scanned_by :: string
  scanned_language :: string
  scanned_tokens :: "string list"
  scanned_import_dependencies :: "string list"

record file_result = abstract_result +
  relative_file_path_to_analysis :: string
  source :: string
  preprocessed_source :: string

record entity_result = abstract_result +
  entity_name :: string
  scanned_inheritance_dependencies :: "string list"
  parent_file_result :: string

datatype result = FileResult file_result | EntityResult entity_result

text \<open>The two counters of \<open>analysis.statistics\<close> that the parsers increment.\<close>

record statistics =
  parsing_hits :: nat
  parsing_misses :: nat

datatype py_error = TypeError | IndexError

text \<open>
  The dictionary \<open>self._results\<close>, in insertion order: \<open>results[key] = record\<close> replaces the
  value of a key that is present, in place, and appends a new key at the end.
\<close>

type_synonym results = "(string \<times> result) list"

definition register :: "results \<Rightarrow> string \<Rightarrow> result \<Rightarrow> results" where
  "register results key record = AList.update key record results"

text \<open>\<open>[obj] + following\<close>, joined by spaces; \<open>following\<close> may still be \<open>None\<close>, and adding
  \<open>None\<close> to a list raises \<open>TypeError\<close>.\<close>

definition create_read_ahead_string :: "string \<Rightarrow> string list option \<Rightarrow> py_error + string" where
  "create_read_ahead_string obj following =
     (case following of
        None \<Rightarrow> Inl TypeError
      | Some f \<Rightarrow> Inr (py_join '' '' (obj # f)))"

text \<open>
  Modelled from the spec: \<open>FileResult.create_file_result\<close> (the class \<open>FileResult\<close> is not
  part of the sources at hand). A file result starts with no import dependencies, and
  the path relative to the analysis root is its unique key.
\<close>

definition create_file_result ::
    "string \<Rightarrow> string \<Rightarrow> string \<Rightarrow> string \<Rightarrow> string \<Rightarrow> string \<Rightarrow> string \<Rightarrow> string list \<Rightarrow>
     string \<Rightarrow> string \<Rightarrow> file_result" where
  "create_file_result file_name relative_path full_path display module by language tokens
       content preprocessed =
     \<lparr> scanned_file_name = file_name,
       absolute_name = full_path,
       display_name = display,
       module_name = module,
       unique_name = relative_path,
       scanned_by = by,
       scanned_language = language,
       scanned_tokens = tokens,
       scanned_import_dependencies = [],
       relative_file_path_to_analysis = relative_path,
       source = content,
       preprocessed_source = preprocessed \<rparr>"

text \<open>The file results of the dictionary, in its order: the values that are file results.\<close>

fun file_results_of :: "results \<Rightarrow> file_result list" where
  "file_results_of [] = []"
| "file_results_of ((k, FileResult r) # rest) = r # file_results_of rest"
| "file_results_of ((k, EntityResult e) # rest) = file_results_of rest"

text \<open>The entity results of the dictionary, in its order.\<close>

fun entity_results_of :: "results \<Rightarrow> entity_result list" where
  "entity_results_of [] = []"
| "entity_results_of ((k, FileResult r) # rest) = entity_results_of rest"
| "entity_results_of ((k, EntityResult e) # rest) = e # entity_results_of rest"

text \<open>
  The statement after an import keyword: the read-ahead string up to the first separator,
  trimmed; and the second of its words, trimmed, where a statement of one word raises
  \<open>IndexError\<close>.
\<close>

definition import_statement :: "char \<Rightarrow> string \<Rightarrow> string list option \<Rightarrow> py_error + string" where
  "import_statement sep obj following =
     (case create_read_ahead_string obj following of
        Inl e \<Rightarrow> Inl e
      | Inr read_ahead_string \<Rightarrow>
          (case py_split sep read_ahead_string of
             [] \<Rightarrow> Inl IndexError
           | import_name # _ \<Rightarrow> Inr (py_strip import_name)))"

definition second_word :: "string \<Rightarrow> py_error + string" where
  "second_word import_name =
     (case py_split CHR '' '' import_name of
        _ # w # _ \<Rightarrow> Inr (py_strip w)
      | _ \<Rightarrow> Inl IndexError)"

section \<open>The VB.NET parser\<close>

definition vbnet_token_mappings :: "(string \<times> string) list" where
  "vbnet_token_mappings =
     [('':'', '' : ''), ('';'', '' ; ''), (''('', '' ( ''), ('')'', '' ) ''),
      (''{'', '' { ''), (''}'', '' } ''), (''['', '' [ ''), ('']'', '' ] ''),
      (''?'', '' ? ''), (''!'', '' ! ''), ('','', '' , ''), (''<'', '' < ''),
      (''>'', '' > ''), ([CHR 0x22], [CHR 0x20, CHR 0x22, CHR 0x20])]"

definition vbnet_ignore_entity_keywords :: "string list" where
  "vbnet_ignore_entity_keywords =
     [''Class'', ''Structure'', ''Interface'', ''Enum'', ''Namespace'', ''Imports'', ''Public'',
      ''Private'', ''Protected'', ''Friend'', ''Static'', ''ReadOnly'', ''Overridable'',
      ''MustOverride'', ''NotOverridable'', ''Shadows'', ''New'', ''Me'', ''MyBase'', ''Event'',
      ''Delegate'', ''Operator'', ''Implicit'', ''Explicit'']"

text \<open>The line comment marker \<open>'\<close> and the block comment markers, both \<open>''\<close>.\<close>

definition vbnet_inline_comment :: string where
  "vbnet_inline_comment = [CHR 0x27]"

definition vbnet_start_block_comment :: string where
  "vbnet_start_block_comment = [CHR 0x27, CHR 0x27]"

definition vbnet_stop_block_comment :: string where
  "vbnet_stop_block_comment = [CHR 0x27, CHR 0x27]"

definition remove_bom :: "string \<Rightarrow> string" where
  "remove_bom input_string =
     (if py_startswith input_string [CHR 0xEF, CHR 0xBB, CHR 0xBF]
      then drop 3 input_string else input_string)"

text \<open>
  The first loop of \<open>preprocess_vbnet_source\<close>, over
  \<open>zip(scanned_tokens, scanned_tokens[1:] + [""])\<close>, with \<open>token_before\<close> as an argument.
\<close>

fun region_filter :: "string \<Rightarrow> string list \<Rightarrow> string list" where
  "region_filter token_before [] = []"
| "region_filter token_before (current_token # rest) =
     (let next_token = (case rest of [] \<Rightarrow> [] | n # _ \<Rightarrow> n);
          valid_token =
            (\<not> current_token = ''#Region'' \<and>
             \<not> (token_before = ''#Region'' \<and>
                  py_startswith (py_strip current_token) [CHR 0x22]) \<and>
             \<not> current_token @ '' '' @ next_token = ''#End Region'')
      in (if valid_token then [current_token] else []) @ region_filter current_token rest)"

definition preprocess_vbnet_source :: "string list \<Rightarrow> string list" where
  "preprocess_vbnet_source tokens =
     preprocess_file_content_and_generate_token_list_by_mapping
       (filter_source_tokens_without_comments (region_filter [] tokens)
          vbnet_inline_comment vbnet_start_block_comment vbnet_stop_block_comment)
       vbnet_token_mappings"

subsection \<open>The entity grammar\<close>

text \<open>
  The pyparsing expression
  \<open>(Keyword(Class) | Keyword(Structure) | Keyword(Interface) | Keyword(Enum)) + Word(alphanums + '_')\<close>
  applied with \<open>parseString\<close>: white space (blank, tab, newline, carriage return) is
  skipped before each element; a keyword matches when the text goes on with it and the
  next character is not an identifier character; a word is the longest run of its
  characters and has at least one. \<open>None\<close> stands for \<open>ParseException\<close>, \<open>Some\<close> carries
  the result named \<open>entity_name\<close>.
\<close>

definition pp_alphanum :: "char \<Rightarrow> bool" where
  "pp_alphanum c = (let n = (of_char c :: nat) in
     (97 \<le> n \<and> n \<le> 122) \<or> (65 \<le> n \<and> n \<le> 90) \<or> (48 \<le> n \<and> n \<le> 57))"

definition pp_white :: "char \<Rightarrow> bool" where
  "pp_white c = (c \<in> set [CHR 0x20, CHR 0x09, CHR 0x0A, CHR 0x0D])"

definition pp_keyword :: "string \<Rightarrow> string \<Rightarrow> string option" where
  "pp_keyword kw s =
     (let s' = dropWhile pp_white s in
      if prefix kw s' \<and>
         (case drop (length kw) s' of
            [] \<Rightarrow> True
          | c # _ \<Rightarrow> \<not> (pp_alphanum c \<or> c = CHR ''_'' \<or> c = CHR ''$''))
      then Some (drop (length kw) s') else None)"

fun pp_match_first :: "string list \<Rightarrow> string \<Rightarrow> string option" where
  "pp_match_first [] s = None"
| "pp_match_first (kw # kws) s =
     (case pp_keyword kw s of Some rest \<Rightarrow> Some rest | None \<Rightarrow> pp_match_first kws s)"

definition pp_word :: "(char \<Rightarrow> bool) \<Rightarrow> string \<Rightarrow> (string \<times> string) option" where
  "pp_word body_chars s =
     (let s' = dropWhile pp_white s; w = takeWhile body_chars s' in
      if w = [] then None else Some (w, dropWhile body_chars s'))"

definition vbnet_match_expression :: "string \<Rightarrow> string option" where
  "vbnet_match_expression read_ahead_string =
     (case pp_match_first [''Class'', ''Structure'', ''Interface'', ''Enum''] read_ahead_string of
        None \<Rightarrow> None
      | Some rest \<Rightarrow>
          (case pp_word (\<lambda>c. pp_alphanum c \<or> c = CHR ''_'') rest of
             None \<Rightarrow> None
           | Some (name, _) \<Rightarrow> Some name))"

subsection \<open>Scope extraction\<close>

definition vbnet_scope_keywords :: "string list" where
  "vbnet_scope_keywords =
     [''Namespace'', ''Class'', ''Structure'', ''Interface'', ''Enum'', ''Function'', ''Sub'', ''If'']"

definition close_scope_character :: string where
  "close_scope_character = ''End''"

text \<open>
  The \<open>while\<close> loop that captures the body of one entity. Its variables are the arguments:
  the two indices, \<open>scope_level\<close> and the list \<open>found_entities[entity_name]\<close>. The result is
  that list and the number of times the loop body ran. \<open>following_tokens\<close> is
  \<open>all_tokens[1:] + [""]\<close>.
\<close>

function capture_body ::
    "string list \<Rightarrow> nat \<Rightarrow> nat \<Rightarrow> int \<Rightarrow> string list \<Rightarrow> nat \<Rightarrow> string list \<times> nat" where
  "capture_body all_tokens iterTokens iterNextTokens scope_level found iterations =
     (let following_tokens = tl all_tokens @ [[]] in
      if iterTokens < length all_tokens \<and> iterNextTokens < length following_tokens then
        (let token = all_tokens ! iterTokens;
             next_token = following_tokens ! iterNextTokens;
             scope_level1 = (if any_keyword_in vbnet_scope_keywords token
                             then scope_level + 1 else scope_level)
         in if token = close_scope_character \<and> any_keyword_in vbnet_scope_keywords next_token
            then (if scope_level1 - 1 = 0 then (found, iterations + 1)
                  else capture_body all_tokens (iterTokens + 2 + 1) (iterNextTokens + 2 + 1)
                         (scope_level1 - 1) (found @ [token]) (iterations + 1))
            else capture_body all_tokens (iterTokens + 1) (iterNextTokens + 1)
                   scope_level1 (found @ [token]) (iterations + 1))
      else (found, iterations))"
  by pat_completeness auto
termination
  by (relation "measure (\<lambda>(all_tokens, iterTokens, _). length all_tokens - iterTokens)") auto

declare capture_body.simps [simp del]

text \<open>
  The \<open>for\<close> loop over the read-ahead triples, with \<open>previous_obj\<close>, the dictionary
  \<open>found_entities\<close> and the statistics as arguments. A failed parse counts a miss and
  goes on with the next triple without assigning \<open>previous_obj\<close>; a \<open>TypeError\<close> from
  \<open>create_read_ahead_string\<close> is not caught here.
\<close>

fun scan_entities ::
    "string list \<Rightarrow> (string \<Rightarrow> string option) \<Rightarrow> (nat \<times> string \<times> string list option) list \<Rightarrow>
     string \<Rightarrow> (string \<times> string list) list \<Rightarrow> statistics \<Rightarrow>
     py_error + ((string \<times> string list) list \<times> statistics)" where
  "scan_entities entity_keywords entity_expression [] previous_obj found_entities stats =
     Inr (found_entities, stats)"
| "scan_entities entity_keywords entity_expression ((index, obj, following) # rest)
       previous_obj found_entities stats =
     (if obj \<in> set entity_keywords \<and> previous_obj \<noteq> close_scope_character then
        (case create_read_ahead_string obj following of
           Inl e \<Rightarrow> Inl e
         | Inr read_ahead_string \<Rightarrow>
             (case entity_expression read_ahead_string of
                None \<Rightarrow>
                  scan_entities entity_keywords entity_expression rest previous_obj found_entities
                    (stats\<lparr>parsing_misses := parsing_misses stats + 1\<rparr>)
              | Some name \<Rightarrow>
                  (let all_tokens = obj # the following;
                       body = fst (capture_body all_tokens 0 0 0 [] 0)
                   in scan_entities entity_keywords entity_expression rest obj
                        (AList.update name body found_entities)
                        (stats\<lparr>parsing_hits := parsing_hits stats + 1\<rparr>))))
      else scan_entities entity_keywords entity_expression rest obj found_entities stats)"

text \<open>
  The entity result that the last loop of \<open>generate_entity_results_from_scopes\<close> builds
  from one item of \<open>found_entities\<close>. The list of import dependencies is the new empty
  list the call passes; the list of inheritance dependencies, which the call does not
  pass, is taken to start empty (the class \<open>EntityResult\<close> is not part of the sources at
  hand).
\<close>

definition make_entity_result :: "file_result \<Rightarrow> string \<times> string list \<Rightarrow> entity_result" where
  "make_entity_result result item =
     (case item of (name, tokens) \<Rightarrow>
        \<lparr> scanned_file_name = scanned_file_name result,
          absolute_name = absolute_name result @ ''/'' @ name,
          display_name = name,
          module_name = module_name result,
          unique_name = name,
          scanned_by = scanned_by result,
          scanned_language = scanned_language result,
          scanned_tokens = tokens,
          scanned_import_dependencies = [],
          entity_name = name,
          scanned_inheritance_dependencies = [],
          parent_file_result = absolute_name result \<rparr>)"

text \<open>
  \<open>generate_entity_results_from_scopes\<close>. The tokenizer
  \<open>preprocess_file_content_and_generate_token_list\<close> of the parsing mixin, which is not
  part of the sources at hand, is an argument.
\<close>

definition generate_entity_results_from_scopes ::
    "(string \<Rightarrow> string list) \<Rightarrow> statistics \<Rightarrow> file_result \<Rightarrow> string list \<Rightarrow>
     (string \<Rightarrow> string option) \<Rightarrow> string \<Rightarrow> string \<Rightarrow> string \<Rightarrow>
     py_error + (entity_result list \<times> statistics)" where
  "generate_entity_results_from_scopes tokenize stats result entity_keywords
       entity_expression line_comment_keyword start_block_comment_keyword
       stop_block_comment_keyword =
     (let source_string_no_comments =
            filter_source_tokens_without_comments (scanned_tokens result)
              line_comment_keyword start_block_comment_keyword stop_block_comment_keyword;
          source_string_no_comments1 = py_replace ''{}'' [] source_string_no_comments;
          source_string_no_comments2 = py_replace ''{ }'' [] source_string_no_comments1;
          filtered_list_no_comments = tokenize source_string_no_comments2
      in case scan_entities entity_keywords entity_expression
                (gen_word_read_ahead filtered_list_no_comments) [] [] stats of
           Inl e \<Rightarrow> Inl e
         | Inr (found_entities, stats') \<Rightarrow>
             Inr (map (make_entity_result result) found_entities, stats'))"

subsection \<open>Imports and inheritance of an entity\<close>

text \<open>
  \<open>_add_imports_to_single_entity_result\<close>: the loop over the read-ahead triples of the
  file's tokens, with the entity's list of import dependencies as an argument. An
  exception inside the \<open>try\<close> is logged and the loop goes on; the first word that contains
  one of the keywords ends the loop.
\<close>

definition vbnet_break_keywords :: "string list" where
  "vbnet_break_keywords = [''Namespace'', ''Class'', ''Structure'', ''Interface'', ''Enum'']"

fun vbnet_imports_loop ::
    "(nat \<times> string \<times> string list option) list \<Rightarrow> string list \<Rightarrow> string list" where
  "vbnet_imports_loop [] deps = deps"
| "vbnet_imports_loop ((index, obj, following) # rest) deps =
     (if obj = ''Imports'' then
        (case import_statement CHR 0x0A obj following of
           Inl e \<Rightarrow> vbnet_imports_loop rest deps
         | Inr import_name \<Rightarrow>
             (case second_word import_name of
                Inl e \<Rightarrow> vbnet_imports_loop rest deps
              | Inr name \<Rightarrow> vbnet_imports_loop rest (deps @ [name])))
      else if any_keyword_in vbnet_break_keywords obj then deps
      else vbnet_imports_loop rest deps)"

definition vbnet_add_imports_to_single_entity_result ::
    "entity_result \<Rightarrow> string list \<Rightarrow> entity_result" where
  "vbnet_add_imports_to_single_entity_result e tokens =
     e\<lparr>scanned_import_dependencies :=
         vbnet_imports_loop (gen_word_read_ahead tokens) (scanned_import_dependencies e)\<rparr>"

text \<open>
  \<open>_add_inheritance_to_entity_result\<close>: the loop over
  \<open>zip(tokens, tokens[1:] + [""])\<close> with \<open>classOrInterfaceName\<close> as an argument; the result
  is \<open>parent_name\<close>, empty when the loop ends without a \<open>break\<close>.
\<close>

fun vbnet_parent_name :: "string \<Rightarrow> string list \<Rightarrow> string" where
  "vbnet_parent_name classOrInterfaceName [] = []"
| "vbnet_parent_name classOrInterfaceName (current_token # rest) =
     (let next_token = (case rest of [] \<Rightarrow> [] | n # _ \<Rightarrow> n);
          classOrInterfaceName1 =
            (if any_keyword_in [''Class'', ''Interface''] current_token
             then next_token else classOrInterfaceName)
      in if current_token = ''Inherits'' \<and> classOrInterfaceName1 \<noteq> []
         then next_token
         else vbnet_parent_name classOrInterfaceName1 rest)"

definition vbnet_add_inheritance_to_entity_result :: "entity_result \<Rightarrow> entity_result" where
  "vbnet_add_inheritance_to_entity_result e =
     (let parent_name = vbnet_parent_name [] (scanned_tokens e) in
      if parent_name \<noteq> []
      then e\<lparr>scanned_inheritance_dependencies :=
               scanned_inheritance_dependencies e @ [parent_name]\<rparr>
      else e)"

subsection \<open>File results and entity results of an analysis\<close>

text \<open>
  \<open>generate_file_result_from_analysis\<close>. The tokenizer of the parsing mixin and the parent
  of the analysis source directory (with a final slash) are arguments.
\<close>

definition vbnet_generate_file_result_from_analysis ::
    "(string \<Rightarrow> string list) \<Rightarrow> string \<Rightarrow> results \<Rightarrow> string \<Rightarrow> string \<Rightarrow> string \<Rightarrow> results" where
  "vbnet_generate_file_result_from_analysis tokenize parent_analysis_source_path results
       file_name full_file_path file_content =
     (let file_content1 = remove_bom file_content;
          tokens = preprocess_vbnet_source (tokenize file_content1);
          relative_path = py_replace parent_analysis_source_path [] full_file_path;
          file_result = create_file_result relative_path relative_path full_file_path file_name
            [] ''VBNET_PARSER'' ''VBNET'' tokens file_content1 []
      in register results (unique_name file_result) (FileResult file_result))"

text \<open>
  The body of the loop of \<open>generate_entity_results_from_analysis\<close> for one file result:
  the entities of its scopes, without those named by an ignored keyword, each with its
  imports and then its inheritance; every one is stored under its \<open>entity_name\<close>.
\<close>

definition vbnet_entity_results_of_file ::
    "(string \<Rightarrow> string list) \<Rightarrow> statistics \<Rightarrow> file_result \<Rightarrow>
     py_error + (entity_result list \<times> statistics)" where
  "vbnet_entity_results_of_file tokenize stats result =
     (case generate_entity_results_from_scopes tokenize stats result
             [''Class'', ''Structure'', ''Interface'', ''Enum''] vbnet_match_expression
             vbnet_inline_comment vbnet_start_block_comment vbnet_stop_block_comment of
        Inl e \<Rightarrow> Inl e
      | Inr (entity_results_unfiltered, stats') \<Rightarrow>
          Inr (map vbnet_add_inheritance_to_entity_result
                 (map (\<lambda>e. vbnet_add_imports_to_single_entity_result e (scanned_tokens result))
                    (filter (\<lambda>e. entity_name e \<notin> set vbnet_ignore_entity_keywords)
                       entity_results_unfiltered)),
               stats'))"

definition store_entity_results :: "results \<Rightarrow> entity_result list \<Rightarrow> results" where
  "store_entity_results results entity_results =
     foldl (\<lambda>rs e. register rs (entity_name e) (EntityResult e)) results entity_results"

fun vbnet_entity_results_of_files ::
    "(string \<Rightarrow> string list) \<Rightarrow> file_result list \<Rightarrow> results \<Rightarrow> statistics \<Rightarrow>
     py_error + (results \<times> statistics)" where
  "vbnet_entity_results_of_files tokenize [] results stats = Inr (results, stats)"
| "vbnet_entity_results_of_files tokenize (result # rest) results stats =
     (case vbnet_entity_results_of_file tokenize stats result of
        Inl e \<Rightarrow> Inl e
      | Inr (entity_results, stats') \<Rightarrow>
          vbnet_entity_results_of_files tokenize rest
            (store_entity_results results entity_results) stats')"

definition vbnet_generate_entity_results_from_analysis ::
    "(string \<Rightarrow> string list) \<Rightarrow> results \<Rightarrow> statistics \<Rightarrow> py_error + (results \<times> statistics)" where
  "vbnet_generate_entity_results_from_analysis tokenize results stats =
     vbnet_entity_results_of_files tokenize (file_results_of results) results stats"

section \<open>The C# parser\<close>

definition csharp_token_mappings :: "(string \<times> string) list" where
  "csharp_token_mappings =
     [('':'', '' : ''), ('';'', '' ; ''), (''{'', '' { ''), (''}'', '' } ''),
      (''('', '' ( ''), ('')'', '' ) ''), (''['', '' [ ''), ('']'', '' ] ''),
      (''?'', '' ? ''), (''!'', '' ! ''), ('','', '' , ''), (''<'', '' < ''),
      (''>'', '' > ''), ([CHR 0x22], [CHR 0x20, CHR 0x22, CHR 0x20]), (''.'', '' . '')]"

definition csharp_break_keywords :: "string list" where
  "csharp_break_keywords = [''namespace'', ''class'', ''struct'', ''interface'', ''enum'']"

text \<open>\<open>create_unique_entity_name\<close>: the entity name, as it is.\<close>

definition csharp_create_unique_entity_name :: "entity_result \<Rightarrow> string" where
  "csharp_create_unique_entity_name entity = entity_name entity"

subsection \<open>Namespace of a file result\<close>

text \<open>
  The inner \<open>while\<close> loop of \<open>_add_namespace_to_result\<close>: reading the token list at an index
  that is not below its length raises \<open>IndexError\<close>.
\<close>

function collect_namespace_parts ::
    "string list \<Rightarrow> nat \<Rightarrow> string list \<Rightarrow> py_error + string list" where
  "collect_namespace_parts tokens current_index namespace_parts =
     (if \<not> current_index < length tokens then Inl IndexError
      else if tokens ! current_index \<noteq> ''{''
        then collect_namespace_parts tokens (current_index + 1)
               (namespace_parts @ [tokens ! current_index])
      else Inr namespace_parts)"
  by pat_completeness auto
termination
  by (relation "measure (\<lambda>(tokens, current_index, _). length tokens - current_index)") auto

declare collect_namespace_parts.simps [simp del]

text \<open>
  The loop over \<open>enumerate(result.scanned_tokens)\<close>: the first token \<open>namespace\<close> ends it,
  with the module name to assign, or with nothing to assign when the \<open>IndexError\<close> is
  caught.
\<close>

fun namespace_scan :: "string list \<Rightarrow> nat \<Rightarrow> string list \<Rightarrow> string option" where
  "namespace_scan tokens index [] = None"
| "namespace_scan tokens index (token # rest) =
     (if token = ''namespace'' then
        (case collect_namespace_parts tokens (index + 1) [] of
           Inl e \<Rightarrow> None
         | Inr namespace_parts \<Rightarrow> Some (py_join ''.'' namespace_parts))
      else namespace_scan tokens (index + 1) rest)"

definition csharp_add_namespace_to_result :: "file_result \<Rightarrow> file_result" where
  "csharp_add_namespace_to_result r =
     (case namespace_scan (scanned_tokens r) 0 (scanned_tokens r) of
        None \<Rightarrow> r
      | Some name \<Rightarrow> r\<lparr>module_name := name\<rparr>)"

text \<open>
  \<open>generate_file_result_from_analysis\<close>; the tokenizer of the parsing mixin and the parent
  of the analysis source directory are arguments.
\<close>

definition csharp_generate_file_result_from_analysis ::
    "(string \<Rightarrow> string list) \<Rightarrow> string \<Rightarrow> results \<Rightarrow> string \<Rightarrow> string \<Rightarrow> string \<Rightarrow> results" where
  "csharp_generate_file_result_from_analysis tokenize parent_analysis_source_path results
       file_name full_file_path file_content =
     (let tokens = tokenize file_content;
          relative_path = py_replace parent_analysis_source_path [] full_file_path;
          file_result = create_file_result relative_path relative_path full_file_path file_name
            [] ''CSHARP_PARSER'' ''CSHARP'' tokens file_content [];
          file_result1 = csharp_add_namespace_to_result file_result
      in register results (unique_name file_result1) (FileResult file_result1))"

subsection \<open>Using statements\<close>

text \<open>
  \<open>_add_usings_to_single_entity_result\<close>: the loop over the read-ahead triples of the
  file's tokens, with the entity's list of import dependencies as an argument.
\<close>

fun csharp_usings_loop ::
    "(nat \<times> string \<times> string list option) list \<Rightarrow> string list \<Rightarrow> string list" where
  "csharp_usings_loop [] deps = deps"
| "csharp_usings_loop ((index, obj, following) # rest) deps =
     (if obj = ''using'' then
        (case import_statement CHR '';'' obj following of
           Inl e \<Rightarrow> csharp_usings_loop rest deps
         | Inr import_name \<Rightarrow>
             (case second_word import_name of
                Inl e \<Rightarrow> csharp_usings_loop rest deps
              | Inr name \<Rightarrow> csharp_usings_loop rest (deps @ [name])))
      else if any_keyword_in csharp_break_keywords obj then deps
      else csharp_usings_loop rest deps)"




subsection \<open>Inheritance and storing of the entity results\<close>

text \<open>
  \<open>_add_inheritance_to_entity_result\<close>: the token after the first colon, over
  \<open>zip(tokens, tokens[1:] + [""])\<close>.
\<close>

fun csharp_parent_name :: "string list \<Rightarrow> string" where
  "csharp_parent_name [] = []"
| "csharp_parent_name (current_token # rest) =
     (if current_token = '':'' then (case rest of [] \<Rightarrow> [] | n # _ \<Rightarrow> n)
      else csharp_parent_name rest)"

definition csharp_add_inheritance_to_entity_result :: "entity_result \<Rightarrow> entity_result" where
  "csharp_add_inheritance_to_entity_result e =
     (let parent_name = csharp_parent_name (scanned_tokens e) in
      if parent_name \<noteq> []
      then e\<lparr>scanned_inheritance_dependencies :=
               scanned_inheritance_dependencies e @ [parent_name]\<rparr>
      else e)"

text \<open>
  The last loop of \<open>generate_entity_results_from_analysis\<close>: each entity result gets its
  inheritance and is stored under its \<open>entity_name\<close>.
\<close>

fun csharp_store_entity_results :: "results \<Rightarrow> entity_result list \<Rightarrow> results" where
  "csharp_store_entity_results results [] = results"
| "csharp_store_entity_results results (entity_result # rest) =
     (let e = csharp_add_inheritance_to_entity_result entity_result
      in csharp_store_entity_results (register results (entity_name e) (EntityResult e)) rest)"

text \<open>The tokens after the first token \<open>namespace\<close>.\<close>

definition tokens_after_namespace :: "string list \<Rightarrow> string list" where
  "tokens_after_namespace tokens = tl (dropWhile (\<lambda>t. t \<noteq> ''namespace'') tokens)"

section \<open>Lists of import dependencies as objects\<close>

text \<open>
  A file result and its entity results each hold a list object of import dependencies.
  For the functions that copy from one list to another the list objects are kept in a
  store, by address, so that a list reached from two results is one object.
\<close>

type_synonym addr = nat
type_synonym list_store = "addr \<Rightarrow> string list"


text \<open>
  The loop of \<open>_add_imports_to_entity_result\<close> (CSS and SCSS parsers), over the parent's
  import dependencies and with the entity's as an argument.
\<close>

fun add_imports_loop :: "string list \<Rightarrow> string list \<Rightarrow> string list" where
  "add_imports_loop [] entity_imports = entity_imports"
| "add_imports_loop (import_dependency # rest) entity_imports =
     (if import_dependency \<notin> set entity_imports
      then add_imports_loop rest (entity_imports @ [import_dependency])
      else add_imports_loop rest entity_imports)"

text \<open>
  \<open>CSSParser._add_imports_to_entity_result\<close>; the arguments are the list object of
  \<open>entity_result.parent_file_result.scanned_import_dependencies\<close> and that of
  \<open>entity_result.scanned_import_dependencies\<close>.
\<close>

definition css_add_imports_to_entity_result :: "list_store \<Rightarrow> addr \<Rightarrow> addr \<Rightarrow> list_store" where
  "css_add_imports_to_entity_result st parent_imports entity_imports =
     st(entity_imports := add_imports_loop (st parent_imports) (st entity_imports))"

text \<open>\<open>SCSSParser._add_imports_to_entity_result\<close>, the same loop.\<close>

definition scss_add_imports_to_entity_result :: "list_store \<Rightarrow> addr \<Rightarrow> addr \<Rightarrow> list_store" where
  "scss_add_imports_to_entity_result st parent_imports entity_imports =
     st(entity_imports := add_imports_loop (st parent_imports) (st entity_imports))"

text \<open>
  \<open>CSharpParser._add_usings_to_single_entity_result\<close> on the entity's list object, and the
  body of \<open>_add_usings_to_file_results\<close> on the list object of one file result; both read
  the tokens of the file.
\<close>

definition csharp_add_usings_to_single_entity_result ::
    "list_store \<Rightarrow> addr \<Rightarrow> string list \<Rightarrow> list_store" where
  "csharp_add_usings_to_single_entity_result st entity_imports tokens =
     st(entity_imports := csharp_usings_loop (gen_word_read_ahead tokens) (st entity_imports))"


text \<open>The store in which every list object is empty, as the list of a new result is.\<close>

definition empty_store :: list_store where
  "empty_store = (\<lambda>a. [])"


section \<open>The XML parser\<close>

definition xml_token_mappings :: "(string \<times> string) list" where
  "xml_token_mappings =
     [(''<'', '' < ''), (''>'', '' > ''), (''/'', '' / ''), (''='', '' = ''),
      ([CHR 0x22], [CHR 0x20, CHR 0x22, CHR 0x20]), (''!--'', '' <!-- ''), (''--'', '' -- '')]"

text \<open>
  The loop of \<open>_add_tags_to_result\<close> over the tokens, with the list of import dependencies
  as an argument: the tag name of a token that starts with \<open><\<close> is \<open>token[1:]\<close> up to its
  first \<open>>\<close>, trimmed.
\<close>

definition xml_tag_name :: "string \<Rightarrow> string" where
  "xml_tag_name token =
     (case py_split CHR ''>'' (drop 1 token) of
        [] \<Rightarrow> []
      | piece # _ \<Rightarrow> py_strip piece)"

fun xml_tags_loop :: "string list \<Rightarrow> string list \<Rightarrow> string list" where
  "xml_tags_loop [] deps = deps"
| "xml_tags_loop (token # rest) deps =
     (if py_startswith token ''<''
      then xml_tags_loop rest (deps @ [xml_tag_name token])
      else xml_tags_loop rest deps)"

definition xml_add_tags_to_result :: "file_result \<Rightarrow> file_result" where
  "xml_add_tags_to_result r =
     r\<lparr>scanned_import_dependencies :=
         xml_tags_loop (scanned_tokens r) (scanned_import_dependencies r)\<rparr>"

text \<open>
  \<open>generate_file_result_from_analysis\<close>; the parent of the analysis source directory is an
  argument.
\<close>

definition xml_generate_file_result_from_analysis ::
    "string \<Rightarrow> results \<Rightarrow> string \<Rightarrow> string \<Rightarrow> string \<Rightarrow> results" where
  "xml_generate_file_result_from_analysis parent_analysis_source_path results
       file_name full_file_path file_content =
     (let tokens = preprocess_file_content_and_generate_token_list_by_mapping file_content
            xml_token_mappings;
          relative_path = py_replace parent_analysis_source_path [] full_file_path;
          file_result = create_file_result file_name relative_path full_file_path file_name
            [] ''XML_PARSER'' ''XML'' tokens file_content [];
          file_result1 = xml_add_tags_to_result file_result
      in register results (unique_name file_result1) (FileResult file_result1))"

text \<open>
  Every \<open><\<close> of a text is followed by one of the given strings. This is what the
  substitutions of the token map keep true of the text, one after the other.
\<close>

fun lt_followed_by :: "string list \<Rightarrow> string \<Rightarrow> bool" where
  "lt_followed_by pats [] = True"
| "lt_followed_by pats (c # cs) =
     ((c = CHR ''<'' \<longrightarrow> list_ex (\<lambda>p. prefix p cs) pats) \<and> lt_followed_by pats cs)"

section \<open>The token maps of the other parsers and token normalization\<close>

definition scss_token_mappings :: "(string \<times> string) list" where
  "scss_token_mappings =
     [('':'', '' : ''), ('';'', '' ; ''), (''{'', '' { ''), (''}'', '' } ''),
      (''('', '' ( ''), ('')'', '' ) ''), (''['', '' [ ''), ('']'', '' ] ''),
      (''?'', '' ? ''), (''!'', '' ! ''), ('','', '' , ''), (''<'', '' < ''),
      (''>'', '' > ''), ([CHR 0x22], [CHR 0x20, CHR 0x22, CHR 0x20])]"

definition json_token_mappings :: "(string \<times> string) list" where
  "json_token_mappings =
     [('':'', '' : ''), ('','', '' , ''), (''{'', '' { ''), (''}'', '' } ''),
      (''['', '' [ ''), ('']'', '' ] ''), ([CHR 0x22], [CHR 0x20, CHR 0x22, CHR 0x20])]"

definition twig_token_mappings :: "(string \<times> string) list" where
  "twig_token_mappings =
     [(''{'', '' { ''), (''}'', '' } ''), (''('', '' ( ''), ('')'', '' ) ''),
      ('','', '' , ''), ([CHR 0x27], [CHR 0x20, CHR 0x27, CHR 0x20]),
      ([CHR 0x22], [CHR 0x20, CHR 0x22, CHR 0x20])]"

definition css_token_mappings :: "(string \<times> string) list" where
  "css_token_mappings =
     [(''{'', '' { ''), (''}'', '' } ''), ('':'', '' : ''), ('';'', '' ; ''),
      (''/*'', '' /* ''), (''*/'', '' */ ''), (''@import'', ''@import ''), ('','', '' , '')]"

text \<open>The text after all the substitutions of a mapping, before it is cut into tokens.\<close>

definition substituted :: "(string \<times> string) list \<Rightarrow> string \<Rightarrow> string" where
  "substituted m s = foldl (\<lambda>content (origin, mapped). py_replace origin mapped content) s m"

text \<open>
  An entry pads its pattern: the pattern is not empty and holds no white space, and the
  replacement is the pattern with a blank after it and possibly one before it. A mapping
  is well padded when all its entries are.
\<close>

definition pads_its_pattern :: "string \<times> string \<Rightarrow> bool" where
  "pads_its_pattern entry = (case entry of (old, new) \<Rightarrow>
     old \<noteq> [] \<and> \<not> list_ex py_isspace old \<and>
     (new = CHR '' '' # old @ '' '' \<or> new = old @ '' ''))"

definition well_padded :: "(string \<times> string) list \<Rightarrow> bool" where
  "well_padded m = list_all pads_its_pattern m"

definition padded :: "string \<Rightarrow> bool \<Rightarrow> string" where
  "padded old lp = (if lp then '' '' else []) @ old @ '' ''"

text \<open>
  A token is flush with a pattern when every occurrence of the pattern in the token ends
  the token, and also starts it when the pattern is padded on the left: no substitution
  of the pattern puts a blank inside such a token.
\<close>

definition flush :: "string \<Rightarrow> bool \<Rightarrow> string \<Rightarrow> bool" where
  "flush old lp t = (\<forall>a b. t = a @ old @ b \<longrightarrow> b = [] \<and> (lp \<longrightarrow> a = []))"

section \<open>Properties of the read-ahead generator\<close>

lemma gen_word_read_ahead_loop_length:
  "length (gen_word_read_ahead_loop ws i f xs) = length xs"
  by (induction xs arbitrary: i f) (auto simp: Let_def)

lemma gen_word_read_ahead_loop_nth:
  "k < length xs \<Longrightarrow> ws = pre @ xs \<Longrightarrow> i = int (length pre) \<Longrightarrow>
   f = (if pre = [] then None else following_at ws (length pre - 1)) \<Longrightarrow>
   gen_word_read_ahead_loop ws i f xs ! k =
     (length pre + k, xs ! k, following_at ws (length pre + k))"
proof (induction xs arbitrary: i f k pre)
  case Nil
  then show ?case by simp
next
  case (Cons x xs)
  define f' where "f' = (if i < int (length ws) - 1 then Some (drop (nat i + 1) ws) else f)"
  have step: "gen_word_read_ahead_loop ws i f (x # xs) =
      (nat i, x, f') # gen_word_read_ahead_loop ws (i + 1) f' xs"
    by (simp add: Let_def f'_def)
  have f': "f' = following_at ws (length pre)"
    using Cons.prems by (auto simp: following_at_def f'_def)
  show ?case
  proof (cases k)
    case 0
    then show ?thesis unfolding step f' using Cons.prems by simp
  next
    case (Suc k')
    have "gen_word_read_ahead_loop ws (i + 1) f' xs ! k' =
          (length (pre @ [x]) + k', xs ! k', following_at ws (length (pre @ [x]) + k'))"
      apply (rule Cons.IH)
      using Cons.prems Suc f' by auto
    then show ?thesis unfolding step using Suc by simp
  qed
qed

text \<open>
  C5, as the claim states it, fails: at the last index the generator does not yield the
  empty list of the words after the last one. For the two words \<open>a\<close>, \<open>b\<close> the second triple
  carries \<open>[b]\<close>, the value assigned at index 0.
\<close>

theorem C5_last_following_counterexample:
  "gen_word_read_ahead [''a'', ''b''] ! 1 = (1, ''b'', Some [''b'']) \<and>
   gen_word_read_ahead [''a'', ''b''] ! 1 \<noteq> (1, ''b'', Some (drop (1 + 1) [''a'', ''b'']))"
  by (simp add: gen_word_read_ahead_def Let_def)

text \<open>
  C5, amended: the generator yields exactly one triple per word, in order; the triple at
  index \<open>i\<close> is \<open>(i, ts[i], f)\<close> where \<open>f\<close> is the list of the words strictly after
  position \<open>i\<close> when \<open>i\<close> is not the last index, and at the last index the value of the
  triple before (the list holding the last word alone), or \<open>None\<close> when the list has one
  word. The list of triples is finite, and it is a function of the word list alone.
\<close>

theorem C5_gen_word_read_ahead_triples:
  "length (gen_word_read_ahead ts) = length ts \<and>
   (\<forall>i < length ts. gen_word_read_ahead ts ! i = (i, ts ! i, following_at ts i))"
  using gen_word_read_ahead_loop_nth [of _ ts ts "[]" 0 None]
  by (simp add: gen_word_read_ahead_def gen_word_read_ahead_loop_length)

theorem C5_gen_word_read_ahead_triples_witness:
  "length (gen_word_read_ahead [''a'', ''b'', ''c'']) = 3 \<and>
   gen_word_read_ahead [''a'', ''b'', ''c''] ! 0 = (0, ''a'', Some [''b'', ''c'']) \<and>
   gen_word_read_ahead [''a'', ''b'', ''c''] ! 2 = (2, ''c'', Some [''c''])"
  using C5_gen_word_read_ahead_triples [of "[''a'', ''b'', ''c'']"]
  by (simp add: following_at_def)

section \<open>Properties of comment stripping\<close>

lemma filter_lines_Cons:
  "filter_lines lc sc ec a (l # ls) =
     (if \<not> marked_line lc sc ec l \<and> \<not> a then [l] else []) @
     filter_lines lc sc ec (block_step sc ec a l) ls"
  by (auto simp: marked_line_def block_step_def opens_block_def closes_block_def)

lemma filter_lines_foldl:
  "filter_lines lc sc ec a ls =
     map ((!) ls) (filter (\<lambda>i. \<not> marked_line lc sc ec (ls ! i) \<and>
        \<not> foldl (block_step sc ec) a (take i ls)) [0..<length ls])"
proof (induction ls arbitrary: a)
  case Nil
  then show ?case by simp
next
  case (Cons l ls)
  have upt: "[0..<length (l # ls)] = 0 # map Suc [0..<length ls]"
    by (simp add: upt_conv_Cons map_Suc_upt del: upt_Suc)
  show ?case
    unfolding filter_lines_Cons upt Cons.IH
    by (simp add: filter_map comp_def)
qed

lemma inside_block_Suc:
  "inside_block sc ec ls (Suc i) \<longleftrightarrow>
     opens_block sc (ls ! i) \<or> (inside_block sc ec ls i \<and> \<not> closes_block sc ec (ls ! i))"
proof
  assume "inside_block sc ec ls (Suc i)"
  then obtain j where j: "j < Suc i" "opens_block sc (ls ! j)"
     "\<forall>k \<in> {j<..<Suc i}. \<not> closes_block sc ec (ls ! k)"
    by (auto simp: inside_block_def)
  show "opens_block sc (ls ! i) \<or> (inside_block sc ec ls i \<and> \<not> closes_block sc ec (ls ! i))"
  proof (cases "j = i")
    case True
    then show ?thesis using j by simp
  next
    case False
    then have "j < i" using j by simp
    moreover have "\<forall>k \<in> {j<..<i}. \<not> closes_block sc ec (ls ! k)" using j by auto
    moreover have "\<not> closes_block sc ec (ls ! i)" using j \<open>j < i\<close> by auto
    ultimately show ?thesis using j unfolding inside_block_def by blast
  qed
next
  assume a: "opens_block sc (ls ! i) \<or> (inside_block sc ec ls i \<and> \<not> closes_block sc ec (ls ! i))"
  show "inside_block sc ec ls (Suc i)"
  proof (cases "opens_block sc (ls ! i)")
    case True
    then show ?thesis unfolding inside_block_def by (intro bexI[of _ i]) auto
  next
    case False
    with a obtain j where j: "j < i" "opens_block sc (ls ! j)"
      "\<forall>k \<in> {j<..<i}. \<not> closes_block sc ec (ls ! k)" and nc: "\<not> closes_block sc ec (ls ! i)"
      by (auto simp: inside_block_def)
    have "\<forall>k \<in> {j<..<Suc i}. \<not> closes_block sc ec (ls ! k)"
    proof
      fix k assume "k \<in> {j<..<Suc i}"
      then have "k \<in> {j<..<i} \<or> k = i" by auto
      then show "\<not> closes_block sc ec (ls ! k)" using j nc by auto
    qed
    then show ?thesis unfolding inside_block_def using j by (intro bexI[of _ j]) auto
  qed
qed

lemma foldl_block_step_inside:
  "i \<le> length ls \<Longrightarrow> foldl (block_step sc ec) False (take i ls) = inside_block sc ec ls i"
proof (induction i)
  case 0
  then show ?case by (simp add: inside_block_def)
next
  case (Suc i)
  then have "take (Suc i) ls = take i ls @ [ls ! i]"
    by (simp add: take_Suc_conv_app_nth)
  then show ?case using Suc
    by (auto simp: inside_block_Suc block_step_def closes_block_def opens_block_def)
qed

lemma filter_lines_survives:
  "filter_lines lc sc ec False ls = map ((!) ls) (filter (survives lc sc ec ls) [0..<length ls])"
proof -
  have "filter (\<lambda>i. \<not> marked_line lc sc ec (ls ! i) \<and>
        \<not> foldl (block_step sc ec) False (take i ls)) [0..<length ls] =
        filter (survives lc sc ec ls) [0..<length ls]"
    by (rule filter_cong) (auto simp: survives_def foldl_block_step_inside)
  then show ?thesis by (simp add: filter_lines_foldl)
qed

text \<open>
  C4, as the claim states it, fails: the filter removes lines that are no line comment and
  lie in no block comment. With the markers \<open>//\<close>, \<open>/*\<close> and \<open>*/\<close>, the line \<open>#Region x\<close>
  starts with none of them and no block is open, yet the filter drops it; and it drops
  the line \<open>*/ x\<close>, which starts with the stop marker while no block is open.
\<close>

theorem C4_other_line_removed_counterexample:
  "source_lines_of [''#Region'', ''x'', ''\<newline>'', ''y''] = [''#Region x '', '' y''] \<and>
   \<not> py_startswith (py_strip ''#Region x '') ''//'' \<and>
   \<not> py_startswith (py_strip ''#Region x '') ''/*'' \<and>
   \<not> py_startswith (py_strip ''#Region x '') ''*/'' \<and>
   filter_source_tokens_without_comments
     [''#Region'', ''x'', ''\<newline>'', ''y''] ''//'' ''/*'' ''*/'' = '' y'' \<and>
   source_lines_of [''*/'', ''x'', ''\<newline>'', ''y''] = [''*/ x '', '' y''] \<and>
   filter_source_tokens_without_comments
     [''*/'', ''x'', ''\<newline>'', ''y''] ''//'' ''/*'' ''*/'' = '' y''"
  by code_simp

text \<open>
  C4, amended: for every token sequence and every configuration of the three markers, the
  filter keeps exactly the lines that survive, in their original order, joined by
  newlines. A line survives when its trimmed text starts with none of \<open>#Region\<close>,
  \<open>#End Region\<close>, the block-start marker, the block-stop marker and the line marker, and
  no earlier line opens a block that is still open: a line opens a block when it starts
  with the block-start marker, and closes one when it starts with the block-stop marker
  and not with the block-start marker (region lines do neither).
\<close>

theorem C4_filter_keeps_surviving_lines:
  "filter_source_tokens_without_comments list_of_words lc sc ec =
     py_join ''\<newline>''
       (map ((!) (source_lines_of list_of_words))
          (filter (survives lc sc ec (source_lines_of list_of_words))
             [0..<length (source_lines_of list_of_words)]))"
  by (simp add: filter_source_tokens_without_comments_def filter_lines_survives)

theorem C4_filter_keeps_surviving_lines_witness:
  "source_lines_of [''a'', ''\<newline>'', ''/*'', ''b'', ''\<newline>'', ''c'', ''\<newline>'',
      ''*/'', ''\<newline>'', ''//'', ''d'', ''\<newline>'', ''e'']
     = [''a '', '' /* b '', '' c '', '' */ '', '' // d '', '' e''] \<and>
   py_join ''\<newline>''
     (map ((!) [''a '', '' /* b '', '' c '', '' */ '', '' // d '', '' e''])
        (filter (survives ''//'' ''/*'' ''*/''
                   [''a '', '' /* b '', '' c '', '' */ '', '' // d '', '' e''])
           [0..<length [''a '', '' /* b '', '' c '', '' */ '', '' // d '', '' e'']]))
     = ''a \<newline> e''"
proof -
  let ?ws = "[''a'', ''\<newline>'', ''/*'', ''b'', ''\<newline>'', ''c'', ''\<newline>'',
      ''*/'', ''\<newline>'', ''//'', ''d'', ''\<newline>'', ''e'']"
  have lines: "source_lines_of ?ws = [''a '', '' /* b '', '' c '', '' */ '', '' // d '', '' e'']"
    by code_simp
  have out: "filter_source_tokens_without_comments ?ws ''//'' ''/*'' ''*/'' = ''a \<newline> e''"
    by code_simp
  show ?thesis
    using C4_filter_keeps_surviving_lines [of ?ws "''//''" "''/*''" "''*/''"]
    unfolding lines out by simp
qed

section \<open>Properties of the VB.NET scope extraction\<close>






lemma class_foo_file_and_entities:
  assumes t1: "tokenize ''Class Foo\<newline>Inherits Bar\<newline>End Class'' =
     [''Class'', ''Foo'', ''\<newline>'', ''Inherits'', ''Bar'', ''\<newline>'', ''End'', ''Class'']"
  and t2: "tokenize ''Class Foo \<newline> Inherits Bar \<newline> End Class'' =
     [''Class'', ''Foo'', ''\<newline>'', ''Inherits'', ''Bar'', ''\<newline>'', ''End'', ''Class'']"
  shows "vbnet_generate_file_result_from_analysis tokenize parent_path [] file_name full_path
       ''Class Foo\<newline>Inherits Bar\<newline>End Class'' =
     [(py_replace parent_path [] full_path,
       FileResult (create_file_result (py_replace parent_path [] full_path)
         (py_replace parent_path [] full_path) full_path file_name [] ''VBNET_PARSER'' ''VBNET''
         ([''Class'', ''Foo'', ''\<newline>'', ''Inherits'', ''Bar'', ''\<newline>''] @ [''End'', ''Class''])
         ''Class Foo\<newline>Inherits Bar\<newline>End Class'' []))] \<and>
   vbnet_entity_results_of_file tokenize stats
     (create_file_result (py_replace parent_path [] full_path)
         (py_replace parent_path [] full_path) full_path file_name [] ''VBNET_PARSER'' ''VBNET''
         ([''Class'', ''Foo'', ''\<newline>'', ''Inherits'', ''Bar'', ''\<newline>''] @ [''End'', ''Class''])
         ''Class Foo\<newline>Inherits Bar\<newline>End Class'' []) =
     Inr ([(make_entity_result
        (create_file_result (py_replace parent_path [] full_path)
         (py_replace parent_path [] full_path) full_path file_name [] ''VBNET_PARSER'' ''VBNET''
         ([''Class'', ''Foo'', ''\<newline>'', ''Inherits'', ''Bar'', ''\<newline>''] @ [''End'', ''Class''])
         ''Class Foo\<newline>Inherits Bar\<newline>End Class'' [])
          (''Foo'', [''Class'', ''Foo'', ''\<newline>'', ''Inherits'', ''Bar'', ''\<newline>'']))
            \<lparr>scanned_inheritance_dependencies := [''Bar'']\<rparr>],
          stats\<lparr>parsing_hits := parsing_hits stats + 1\<rparr>)"
proof -
  let ?ws = "[''Class'', ''Foo'', ''\<newline>'', ''Inherits'', ''Bar'', ''\<newline>'', ''End'', ''Class'']"
  let ?body = "[''Class'', ''Foo'', ''\<newline>'', ''Inherits'', ''Bar'', ''\<newline>'']"
  have bom: "remove_bom ''Class Foo\<newline>Inherits Bar\<newline>End Class'' = ''Class Foo\<newline>Inherits Bar\<newline>End Class''"
    by code_simp
  have pre: "preprocess_vbnet_source ?ws = ?ws"
    by code_simp
  have flt: "py_replace ''{ }'' [] (py_replace ''{}'' []
       (filter_source_tokens_without_comments ?ws vbnet_inline_comment
          vbnet_start_block_comment vbnet_stop_block_comment)) =
       ''Class Foo \<newline> Inherits Bar \<newline> End Class''"
    by code_simp
  have scan: "scan_entities [''Class'', ''Structure'', ''Interface'', ''Enum''] vbnet_match_expression
      (gen_word_read_ahead ?ws) [] [] stats =
      Inr ([(''Foo'', ?body)], stats\<lparr>parsing_hits := parsing_hits stats + 1\<rparr>)"
    by code_simp
  have imp: "vbnet_imports_loop (gen_word_read_ahead ?ws) [] = []"
    by code_simp
  have par: "vbnet_parent_name [] ?body = ''Bar''"
    by code_simp
  have ign: "''Foo'' \<notin> set vbnet_ignore_entity_keywords"
    by code_simp
  show ?thesis
    by (simp add: vbnet_generate_file_result_from_analysis_def vbnet_entity_results_of_file_def
        generate_entity_results_from_scopes_def Let_def bom t1 t2 pre flt scan imp par ign
        register_def create_file_result_def make_entity_result_def
        vbnet_add_imports_to_single_entity_result_def vbnet_add_inheritance_to_entity_result_def
        del: vbnet_parent_name.simps vbnet_imports_loop.simps scan_entities.simps)
qed

lemma store_one_entity:
  "entity_results_of (store_entity_results [(k, FileResult fr)] [e]) = [e]"
  by (simp add: store_entity_results_def register_def)

text \<open>
  C2: for the source of the three lines \<open>Class Foo\<close>, \<open>Inherits Bar\<close>, \<open>End Class\<close>, the
  file result generation followed by the entity result generation leaves exactly one
  entity result; its \<open>entity_name\<close> is \<open>Foo\<close>, its inheritance dependencies are \<open>[Bar]\<close>,
  and its tokens are those of the file up to, and without, the closing \<open>End Class\<close>. The
  tokenizer of the parsing mixin is any function that cuts the two texts at white space
  and keeps the newlines.
\<close>

theorem C2_class_foo_inherits_bar:
  assumes t1: "tokenize ''Class Foo\<newline>Inherits Bar\<newline>End Class'' =
     [''Class'', ''Foo'', ''\<newline>'', ''Inherits'', ''Bar'', ''\<newline>'', ''End'', ''Class'']"
  and t2: "tokenize ''Class Foo \<newline> Inherits Bar \<newline> End Class'' =
     [''Class'', ''Foo'', ''\<newline>'', ''Inherits'', ''Bar'', ''\<newline>'', ''End'', ''Class'']"
  shows "\<exists>fr e results'.
     file_results_of (vbnet_generate_file_result_from_analysis tokenize parent_path []
        file_name full_path ''Class Foo\<newline>Inherits Bar\<newline>End Class'') = [fr] \<and>
     vbnet_generate_entity_results_from_analysis tokenize
       (vbnet_generate_file_result_from_analysis tokenize parent_path []
          file_name full_path ''Class Foo\<newline>Inherits Bar\<newline>End Class'') stats =
       Inr (results', stats\<lparr>parsing_hits := parsing_hits stats + 1\<rparr>) \<and>
     entity_results_of results' = [e] \<and>
     entity_name e = ''Foo'' \<and>
     scanned_inheritance_dependencies e = [''Bar''] \<and>
     scanned_tokens e = [''Class'', ''Foo'', ''\<newline>'', ''Inherits'', ''Bar'', ''\<newline>''] \<and>
     scanned_tokens fr = scanned_tokens e @ [''End'', ''Class'']"
proof -
  define rel where "rel = py_replace parent_path [] full_path"
  define fr where "fr = create_file_result rel rel full_path file_name [] ''VBNET_PARSER''
      ''VBNET'' ([''Class'', ''Foo'', ''\<newline>'', ''Inherits'', ''Bar'', ''\<newline>''] @ [''End'', ''Class''])
      ''Class Foo\<newline>Inherits Bar\<newline>End Class'' []"
  define e where "e = (make_entity_result fr
      (''Foo'', [''Class'', ''Foo'', ''\<newline>'', ''Inherits'', ''Bar'', ''\<newline>'']))
      \<lparr>scanned_inheritance_dependencies := [''Bar'']\<rparr>"
  note steps = class_foo_file_and_entities [OF t1 t2, of parent_path file_name full_path stats,
      folded rel_def, folded fr_def, folded e_def]
  have fres: "vbnet_generate_file_result_from_analysis tokenize parent_path []
        file_name full_path ''Class Foo\<newline>Inherits Bar\<newline>End Class'' = [(rel, FileResult fr)]"
    using steps by blast
  have ents: "vbnet_entity_results_of_file tokenize stats fr =
      Inr ([e], stats\<lparr>parsing_hits := parsing_hits stats + 1\<rparr>)"
    using steps by blast
  have run: "vbnet_generate_entity_results_from_analysis tokenize [(rel, FileResult fr)] stats =
      Inr (store_entity_results [(rel, FileResult fr)] [e],
           stats\<lparr>parsing_hits := parsing_hits stats + 1\<rparr>)"
    by (simp add: vbnet_generate_entity_results_from_analysis_def ents)
  have "file_results_of [(rel, FileResult fr)] = [fr]" by simp
  moreover have "entity_name e = ''Foo''" "scanned_inheritance_dependencies e = [''Bar'']"
    "scanned_tokens e = [''Class'', ''Foo'', ''\<newline>'', ''Inherits'', ''Bar'', ''\<newline>'']"
    by (simp_all add: e_def make_entity_result_def)
  moreover have "scanned_tokens fr = scanned_tokens e @ [''End'', ''Class'']"
    by (simp add: e_def fr_def make_entity_result_def create_file_result_def)
  ultimately show ?thesis
    unfolding fres run using store_one_entity [of rel fr e] by blast
qed

theorem C2_class_foo_inherits_bar_witness:
  "\<exists>fr e results'.
     file_results_of (vbnet_generate_file_result_from_analysis
        (\<lambda>s. preprocess_file_content_and_generate_token_list_by_mapping s vbnet_token_mappings)
        ''/home/'' [] ''a.vb'' ''/home/proj/a.vb''
        ''Class Foo\<newline>Inherits Bar\<newline>End Class'') = [fr] \<and>
     vbnet_generate_entity_results_from_analysis
       (\<lambda>s. preprocess_file_content_and_generate_token_list_by_mapping s vbnet_token_mappings)
       (vbnet_generate_file_result_from_analysis
          (\<lambda>s. preprocess_file_content_and_generate_token_list_by_mapping s vbnet_token_mappings)
          ''/home/'' [] ''a.vb'' ''/home/proj/a.vb''
          ''Class Foo\<newline>Inherits Bar\<newline>End Class'')
       \<lparr>parsing_hits = 0, parsing_misses = 0\<rparr> =
       Inr (results', \<lparr>parsing_hits = 1, parsing_misses = 0\<rparr>) \<and>
     entity_results_of results' = [e] \<and>
     entity_name e = ''Foo'' \<and>
     scanned_inheritance_dependencies e = [''Bar''] \<and>
     scanned_tokens e = [''Class'', ''Foo'', ''\<newline>'', ''Inherits'', ''Bar'', ''\<newline>''] \<and>
     scanned_tokens fr = scanned_tokens e @ [''End'', ''Class'']"
proof -
  let ?tk = "\<lambda>s. preprocess_file_content_and_generate_token_list_by_mapping s vbnet_token_mappings"
  have t1: "?tk ''Class Foo\<newline>Inherits Bar\<newline>End Class'' =
     [''Class'', ''Foo'', ''\<newline>'', ''Inherits'', ''Bar'', ''\<newline>'', ''End'', ''Class'']"
    by code_simp
  have t2: "?tk ''Class Foo \<newline> Inherits Bar \<newline> End Class'' =
     [''Class'', ''Foo'', ''\<newline>'', ''Inherits'', ''Bar'', ''\<newline>'', ''End'', ''Class'']"
    by code_simp
  show ?thesis
    using C2_class_foo_inherits_bar [of ?tk, OF t1 t2, of "''/home/''" "''a.vb''"
        "''/home/proj/a.vb''" "\<lparr>parsing_hits = 0, parsing_misses = 0\<rparr>"]
    by simp
qed

section \<open>Properties of the C# namespace attachment\<close>

lemma collect_namespace_parts_eq:
  "collect_namespace_parts tokens i parts =
     (if ''{'' \<in> set (drop i tokens)
      then Inr (parts @ takeWhile (\<lambda>t. t \<noteq> ''{'') (drop i tokens))
      else Inl IndexError)"
proof (induction tokens i parts rule: collect_namespace_parts.induct)
  case (1 tokens i parts)
  show ?case
  proof (cases "i < length tokens")
    case False
    then show ?thesis by (subst collect_namespace_parts.simps) simp
  next
    case True
    then have d: "drop i tokens = tokens ! i # drop (Suc i) tokens"
      by (simp add: Cons_nth_drop_Suc)
    show ?thesis
    proof (cases "tokens ! i = ''{''")
      case True
      then show ?thesis using \<open>i < length tokens\<close> d
        by (subst collect_namespace_parts.simps) simp
    next
      case False
      then show ?thesis using \<open>i < length tokens\<close> d "1.IH"
        by (subst collect_namespace_parts.simps) simp
    qed
  qed
qed

lemma namespace_scan_eq:
  "tokens = pre @ rest \<Longrightarrow> index = length pre \<Longrightarrow>
   namespace_scan tokens index rest =
     (if ''namespace'' \<in> set rest \<and>
         ''{'' \<in> set (tl (dropWhile (\<lambda>t. t \<noteq> ''namespace'') rest))
      then Some (py_join ''.''
             (takeWhile (\<lambda>t. t \<noteq> ''{'') (tl (dropWhile (\<lambda>t. t \<noteq> ''namespace'') rest))))
      else None)"
proof (induction rest arbitrary: pre index)
  case Nil
  then show ?case by simp
next
  case (Cons token rest)
  show ?case
  proof (cases "token = ''namespace''")
    case True
    have "drop (index + 1) tokens = rest" using Cons.prems by simp
    then show ?thesis using True
      by (simp add: collect_namespace_parts_eq)
  next
    case False
    have "namespace_scan tokens (index + 1) rest = 
      (if ''namespace'' \<in> set rest \<and>
         ''{'' \<in> set (tl (dropWhile (\<lambda>t. t \<noteq> ''namespace'') rest))
      then Some (py_join ''.''
             (takeWhile (\<lambda>t. t \<noteq> ''{'') (tl (dropWhile (\<lambda>t. t \<noteq> ''namespace'') rest))))
      else None)"
      by (rule Cons.IH [of "pre @ [token]"]) (use Cons.prems in auto)
    then show ?thesis using False by simp
  qed
qed

text \<open>
  C8: namespace attachment looks for the first token \<open>namespace\<close>; when a scope-open token
  follows it, the tokens between the two, joined by dots, become the module name; when
  there is no token \<open>namespace\<close>, or the tokens run out before a scope-open token, the
  file result is left as it was (a new file result has the empty module name). The
  function returns a file result in every case: the \<open>IndexError\<close> of the run-off is caught.
\<close>

theorem C8_namespace_attachment:
  "csharp_add_namespace_to_result r =
     (if ''namespace'' \<in> set (scanned_tokens r) \<and>
         ''{'' \<in> set (tokens_after_namespace (scanned_tokens r))
      then r\<lparr>module_name := py_join ''.''
             (takeWhile (\<lambda>t. t \<noteq> ''{'') (tokens_after_namespace (scanned_tokens r)))\<rparr>
      else r)"
  using namespace_scan_eq [of "scanned_tokens r" "[]" "scanned_tokens r" 0]
  by (simp add: csharp_add_namespace_to_result_def tokens_after_namespace_def)

theorem C8_namespace_attachment_witness:
  "module_name (csharp_add_namespace_to_result
     (create_file_result ''a.cs'' ''a.cs'' ''/p/a.cs'' ''a.cs'' [] ''CSHARP_PARSER'' ''CSHARP''
        [''using'', ''X'', '';'', ''namespace'', ''A'', ''B'', ''{'', ''namespace'', ''C'', ''{'',
         ''}'', ''}''] [] [])) = ''A.B'' \<and>
   module_name (csharp_add_namespace_to_result
     (create_file_result ''b.cs'' ''b.cs'' ''/p/b.cs'' ''b.cs'' [] ''CSHARP_PARSER'' ''CSHARP''
        [''namespace'', ''A'', '';'', ''class'', ''C''] [] [])) = []"
  using C8_namespace_attachment [of "create_file_result ''a.cs'' ''a.cs'' ''/p/a.cs'' ''a.cs'' []
        ''CSHARP_PARSER'' ''CSHARP''
        [''using'', ''X'', '';'', ''namespace'', ''A'', ''B'', ''{'', ''namespace'', ''C'', ''{'',
         ''}'', ''}''] [] []"]
    C8_namespace_attachment [of "create_file_result ''b.cs'' ''b.cs'' ''/p/b.cs'' ''b.cs'' []
        ''CSHARP_PARSER'' ''CSHARP'' [''namespace'', ''A'', '';'', ''class'', ''C''] [] []"]
  by (simp add: create_file_result_def tokens_after_namespace_def)

section \<open>Properties of the results dictionary\<close>

lemma register_lookup: "map_of (register rs k r) k = Some r"
  by (simp add: register_def update_conv')

lemma register_keys_present:
  "k \<in> fst ` set rs \<Longrightarrow> map fst (register rs k r) = map fst rs"
  by (simp add: register_def update_keys)

lemma register_keys_absent:
  "k \<notin> fst ` set rs \<Longrightarrow> map fst (register rs k r) = map fst rs @ [k]"
  by (simp add: register_def update_keys)

lemma register_distinct: "distinct (map fst rs) \<Longrightarrow> distinct (map fst (register rs k r))"
  by (simp add: register_def distinct_update)

lemma register_key_in: "k \<in> fst ` set (register rs k r)"
  using register_lookup [of rs k r] by (metis domI dom_map_of_conv_image_fst)

lemma csharp_inheritance_entity_name:
  "entity_name (csharp_add_inheritance_to_entity_result e) = entity_name e"
  by (simp add: csharp_add_inheritance_to_entity_result_def Let_def)

lemma count_key: "distinct (map fst rs) \<Longrightarrow> k \<in> fst ` set rs \<Longrightarrow>
   length (filter (\<lambda>kv. fst kv = k) rs) = 1"
proof (induction rs)
  case Nil
  then show ?case by simp
next
  case (Cons a rs)
  show ?case
  proof (cases "fst a = k")
    case True
    then have "k \<notin> fst ` set rs" using Cons.prems by auto
    then have "filter (\<lambda>kv. fst kv = k) rs = []" by (auto simp: filter_empty_conv)
    then show ?thesis using True by simp
  next
    case False
    then show ?thesis using Cons by auto
  qed
qed

text \<open>
  C7: storing a record under a key that is present replaces the earlier record, with no
  error and no second entry: the key then maps to the later record and the keys of the
  dictionary are the same. So when two entity results named \<open>Foo\<close> (one from each of two
  files) are stored by the C# parser, whose key is the bare entity name, the dictionary
  holds one entry under the key \<open>Foo\<close>, the entity result stored last.
\<close>

theorem C7_register_last_write_wins:
  "map_of (register (register rs k r1) k r2) k = Some r2 \<and>
   map fst (register (register rs k r1) k r2) = map fst (register rs k r1) \<and>
   (distinct (map fst rs) \<and> entity_name e1 = ''Foo'' \<and> entity_name e2 = ''Foo'' \<longrightarrow>
      map_of (csharp_store_entity_results (csharp_store_entity_results rs [e1]) [e2]) ''Foo'' =
        Some (EntityResult (csharp_add_inheritance_to_entity_result e2)) \<and>
      length (filter (\<lambda>kv. fst kv = ''Foo'')
        (csharp_store_entity_results (csharp_store_entity_results rs [e1]) [e2])) = 1)"
proof (intro conjI impI)
  show "map_of (register (register rs k r1) k r2) k = Some r2" by (rule register_lookup)
  show "map fst (register (register rs k r1) k r2) = map fst (register rs k r1)"
    by (rule register_keys_present) (rule register_key_in)
next
  assume a: "distinct (map fst rs) \<and> entity_name e1 = ''Foo'' \<and> entity_name e2 = ''Foo''"
  let ?e1 = "csharp_add_inheritance_to_entity_result e1"
  let ?e2 = "csharp_add_inheritance_to_entity_result e2"
  have eq: "csharp_store_entity_results (csharp_store_entity_results rs [e1]) [e2] =
      register (register rs ''Foo'' (EntityResult ?e1)) ''Foo'' (EntityResult ?e2)"
    using a by (simp add: Let_def csharp_inheritance_entity_name)
  show "map_of (csharp_store_entity_results (csharp_store_entity_results rs [e1]) [e2]) ''Foo'' =
        Some (EntityResult ?e2)"
    unfolding eq by (rule register_lookup)
  show "length (filter (\<lambda>kv. fst kv = ''Foo'')
        (csharp_store_entity_results (csharp_store_entity_results rs [e1]) [e2])) = 1"
    unfolding eq using a by (intro count_key register_distinct register_key_in) simp
qed

theorem C7_register_last_write_wins_witness:
  "map_of (csharp_store_entity_results (csharp_store_entity_results
       [(''p/a.cs'', FileResult (create_file_result ''p/a.cs'' ''p/a.cs'' ''/h/p/a.cs'' ''a.cs'' []
           ''CSHARP_PARSER'' ''CSHARP'' [''class'', ''Foo'', ''{'', ''}''] [] [])),
        (''p/b.cs'', FileResult (create_file_result ''p/b.cs'' ''p/b.cs'' ''/h/p/b.cs'' ''b.cs'' []
           ''CSHARP_PARSER'' ''CSHARP'' [''class'', ''Foo'', '':'', ''Bar'', ''{'', ''}''] [] []))]
       [make_entity_result (create_file_result ''p/a.cs'' ''p/a.cs'' ''/h/p/a.cs'' ''a.cs'' []
           ''CSHARP_PARSER'' ''CSHARP'' [''class'', ''Foo'', ''{'', ''}''] [] [])
          (''Foo'', [''class'', ''Foo''])])
       [make_entity_result (create_file_result ''p/b.cs'' ''p/b.cs'' ''/h/p/b.cs'' ''b.cs'' []
           ''CSHARP_PARSER'' ''CSHARP'' [''class'', ''Foo'', '':'', ''Bar'', ''{'', ''}''] [] [])
          (''Foo'', [''class'', ''Foo'', '':'', ''Bar''])]) ''Foo'' =
     Some (EntityResult ((make_entity_result (create_file_result ''p/b.cs'' ''p/b.cs''
           ''/h/p/b.cs'' ''b.cs'' [] ''CSHARP_PARSER'' ''CSHARP''
           [''class'', ''Foo'', '':'', ''Bar'', ''{'', ''}''] [] [])
          (''Foo'', [''class'', ''Foo'', '':'', ''Bar'']))
          \<lparr>scanned_inheritance_dependencies := [''Bar'']\<rparr>))"
proof -
  let ?fa = "create_file_result ''p/a.cs'' ''p/a.cs'' ''/h/p/a.cs'' ''a.cs'' []
           ''CSHARP_PARSER'' ''CSHARP'' [''class'', ''Foo'', ''{'', ''}''] [] []"
  let ?fb = "create_file_result ''p/b.cs'' ''p/b.cs'' ''/h/p/b.cs'' ''b.cs'' []
           ''CSHARP_PARSER'' ''CSHARP'' [''class'', ''Foo'', '':'', ''Bar'', ''{'', ''}''] [] []"
  let ?rs = "[(''p/a.cs'', FileResult ?fa), (''p/b.cs'', FileResult ?fb)]"
  let ?e1 = "make_entity_result ?fa (''Foo'', [''class'', ''Foo''])"
  let ?e2 = "make_entity_result ?fb (''Foo'', [''class'', ''Foo'', '':'', ''Bar''])"
  have d: "distinct (map fst ?rs)" by simp
  have n1: "entity_name ?e1 = ''Foo''" by (simp add: make_entity_result_def)
  have n2: "entity_name ?e2 = ''Foo''" by (simp add: make_entity_result_def)
  have inh: "csharp_add_inheritance_to_entity_result ?e2 =
      ?e2\<lparr>scanned_inheritance_dependencies := [''Bar'']\<rparr>"
    by (simp add: csharp_add_inheritance_to_entity_result_def make_entity_result_def Let_def)
  have "map_of (csharp_store_entity_results (csharp_store_entity_results ?rs [?e1]) [?e2]) ''Foo'' =
        Some (EntityResult (csharp_add_inheritance_to_entity_result ?e2))"
    using C7_register_last_write_wins [of ?rs _ _ _ ?e1 ?e2] d n1 n2 by blast
  then show ?thesis unfolding inh .
qed

section \<open>Properties of the import attachment\<close>

lemma add_imports_loop_decomp:
  "\<exists>added. add_imports_loop fs es = es @ added \<and> distinct added \<and>
     set added \<inter> set es = {} \<and> set added \<subseteq> set fs \<and> set fs \<subseteq> set es \<union> set added"
proof (induction fs arbitrary: es)
  case Nil
  then show ?case by simp
next
  case (Cons d fs)
  show ?case
  proof (cases "d \<in> set es")
    case True
    from Cons.IH [of es] obtain added where
      "add_imports_loop fs es = es @ added" "distinct added" "set added \<inter> set es = {}"
      "set added \<subseteq> set fs" "set fs \<subseteq> set es \<union> set added" by blast
    then show ?thesis using True by (intro exI [of _ added]) auto
  next
    case False
    from Cons.IH [of "es @ [d]"] obtain added where a:
      "add_imports_loop fs (es @ [d]) = (es @ [d]) @ added" "distinct added"
      "set added \<inter> set (es @ [d]) = {}"
      "set added \<subseteq> set fs" "set fs \<subseteq> set (es @ [d]) \<union> set added" by blast
    then show ?thesis using False by (intro exI [of _ "d # added"]) auto
  qed
qed


lemma add_imports_loop_distinct: "distinct es \<Longrightarrow> distinct (add_imports_loop fs es)"
  using add_imports_loop_decomp [of fs es] by auto









text \<open>
  C9, as the claim states it, fails for the C# entities: their attachment appends every
  import it finds, with no containment check. For a file whose tokens hold \<open>using A;\<close>
  twice before the class, the entity's list, empty before, becomes \<open>[A, A]\<close>.
\<close>

theorem C9_csharp_duplicate_import_counterexample:
  "csharp_add_usings_to_single_entity_result empty_store 1
     [''using'', ''A'', '';'', ''using'', ''A'', '';'', ''class'', ''Foo'', ''{'', ''}''] 1
     = [''A'', ''A''] \<and>
   \<not> distinct (csharp_add_usings_to_single_entity_result empty_store 1
     [''using'', ''A'', '';'', ''using'', ''A'', '';'', ''class'', ''Foo'', ''{'', ''}''] 1)"
  by code_simp

text \<open>
  C9, amended: when the CSS parser or the SCSS parser attaches the owning file's imports
  to an entity, each import is inserted only after a containment check: the entity's
  list is extended by imports that are different from one another and none of which
  was in the list, so the attachment introduces no duplicate entry, and a list without
  duplicates stays so.
\<close>

theorem C9_attachment_introduces_no_duplicate:
  "(\<exists>added. css_add_imports_to_entity_result st parent entity entity = st entity @ added \<and>
      distinct added \<and> set added \<inter> set (st entity) = {}) \<and>
   (distinct (st entity) \<longrightarrow>
      distinct (css_add_imports_to_entity_result st parent entity entity)) \<and>
   (\<exists>added. scss_add_imports_to_entity_result st parent entity entity = st entity @ added \<and>
      distinct added \<and> set added \<inter> set (st entity) = {}) \<and>
   (distinct (st entity) \<longrightarrow>
      distinct (scss_add_imports_to_entity_result st parent entity entity))"
  using add_imports_loop_decomp [of "st parent" "st entity"]
  by (auto simp: css_add_imports_to_entity_result_def scss_add_imports_to_entity_result_def
      add_imports_loop_distinct)

theorem C9_attachment_introduces_no_duplicate_witness:
  "distinct [''b.css''] \<and>
   scss_add_imports_to_entity_result
     (empty_store(0 := [''a.css'', ''b.css'', ''a.css''], 1 := [''b.css''])) 0 1 1 =
     [''b.css'', ''a.css''] \<and>
   distinct (scss_add_imports_to_entity_result
     (empty_store(0 := [''a.css'', ''b.css'', ''a.css''], 1 := [''b.css''])) 0 1 1)"
proof -
  let ?st = "empty_store(0 := [''a.css'', ''b.css'', ''a.css''], 1 := [''b.css''])"
  have d: "distinct (?st 1)" by simp
  have after: "scss_add_imports_to_entity_result ?st 0 1 1 = [''b.css'', ''a.css'']"
    by (simp add: scss_add_imports_to_entity_result_def)
  have "distinct (scss_add_imports_to_entity_result ?st 0 1 1)"
    using C9_attachment_introduces_no_duplicate [of ?st 0 1] d by blast
  then show ?thesis using after by simp
qed

section \<open>Properties of the XML tag extraction\<close>

lemma py_replace_single:
  "py_replace [k] new s = concat (map (\<lambda>c. if c = k then new else [c]) s)"
proof (induction s)
  case Nil
  then show ?case by (subst py_replace.simps) simp
next
  case (Cons c s)
  then show ?case by (subst py_replace.simps) auto
qed

lemma lt_followed_by_append:
  "lt_followed_by pats (xs @ ys) \<Longrightarrow> lt_followed_by pats ys"
  by (induction xs) auto

lemma lt_followed_by_dropWhile:
  "lt_followed_by pats s \<Longrightarrow> lt_followed_by pats (dropWhile P s)"
  using lt_followed_by_append [of pats "takeWhile P s" "dropWhile P s"] by simp

lemma pad_lt: "lt_followed_by ['' ''] (concat (map (\<lambda>c. if c = CHR ''<'' then '' < '' else [c]) s))"
  by (induction s) auto

lemma pad_other:
  "k \<noteq> CHR ''<'' \<Longrightarrow> k \<noteq> CHR '' '' \<Longrightarrow> lt_followed_by ['' ''] s \<Longrightarrow>
   lt_followed_by ['' ''] (concat (map (\<lambda>c. if c = k then [CHR '' '', k, CHR '' ''] else [c]) s))"
proof (induction s)
  case Nil
  then show ?case by simp
next
  case (Cons c s)
  then show ?case by (cases s) (auto simp: prefix_Cons)
qed


lemma replace_keeps_space:
  "old \<noteq> [] \<Longrightarrow> hd old \<noteq> CHR '' '' \<Longrightarrow> prefix '' '' s \<Longrightarrow> prefix '' '' (py_replace old new s)"
proof -
  assume a: "old \<noteq> []" "hd old \<noteq> CHR '' ''" "prefix '' '' s"
  then obtain s' where s: "s = CHR '' '' # s'" by (auto simp: prefix_def)
  have "\<not> prefix old s" using a s by (cases old) auto
  then have "py_replace old new s = CHR '' '' # py_replace old new s'"
    using a s by (subst py_replace.simps) simp
  then show ?thesis by simp
qed

lemma stage_comment:
  "lt_followed_by ['' ''] s \<Longrightarrow>
   lt_followed_by ['' '', ''!-- ''] (py_replace ''!--'' '' <!-- '' s)"
proof (induction "''!--''" "'' <!-- ''" s rule: py_replace.induct)
  case (1 s)
  show ?case
  proof (cases "s = []")
    case True
    then show ?thesis by (subst py_replace.simps) simp
  next
    case ne: False
    show ?thesis
    proof (cases "prefix ''!--'' s")
      case True
      then obtain s' where s: "s = ''!--'' @ s'" by (auto simp: prefix_def)
      have "lt_followed_by ['' ''] s'"
        using "1.prems" lt_followed_by_append [of "['' '']" "''!--''" s'] unfolding s by simp
      then have "lt_followed_by ['' '', ''!-- ''] (py_replace ''!--'' '' <!-- '' s')"
        using "1.hyps"(1) ne True s by simp
      then show ?thesis using True ne s by (subst py_replace.simps) simp
    next
      case False
      obtain c s' where s: "s = c # s'" using ne by (cases s) auto
      have ih: "lt_followed_by ['' '', ''!-- ''] (py_replace ''!--'' '' <!-- '' s')"
        using "1.hyps"(2) ne False "1.prems" s by simp
      have "c = CHR ''<'' \<Longrightarrow> prefix '' '' (py_replace ''!--'' '' <!-- '' s')"
        using "1.prems" s by (intro replace_keeps_space) auto
      then show ?thesis using False ne s ih by (subst py_replace.simps) auto
    qed
  qed
qed


lemma stage_dashes:
  "lt_followed_by ['' '', ''!-- ''] s \<Longrightarrow>
   lt_followed_by ['' '', ''! ''] (py_replace ''--'' '' -- '' s)"
proof (induction "''--''" "'' -- ''" s rule: py_replace.induct)
  case (1 s)
  show ?case
  proof (cases "s = []")
    case True
    then show ?thesis by (subst py_replace.simps) simp
  next
    case ne: False
    show ?thesis
    proof (cases "prefix ''--'' s")
      case True
      then obtain s' where s: "s = ''--'' @ s'" by (auto simp: prefix_def)
      have "lt_followed_by ['' '', ''!-- ''] s'"
        using "1.prems" lt_followed_by_append [of "['' '', ''!-- '']" "''--''" s'] unfolding s
        by simp
      then have "lt_followed_by ['' '', ''! ''] (py_replace ''--'' '' -- '' s')"
        using "1.hyps"(1) ne True s by simp
      then show ?thesis using True ne s by (subst py_replace.simps) simp
    next
      case False
      obtain c s' where s: "s = c # s'" using ne by (cases s) auto
      have ih: "lt_followed_by ['' '', ''! ''] (py_replace ''--'' '' -- '' s')"
        using "1.hyps"(2) ne False "1.prems" s by simp
      have "prefix '' '' (py_replace ''--'' '' -- '' s') \<or>
            prefix ''! '' (py_replace ''--'' '' -- '' s')" if c: "c = CHR ''<''"
      proof -
        from "1.prems" s c have "prefix '' '' s' \<or> prefix ''!-- '' s'" by simp
        then show ?thesis
        proof
          assume "prefix '' '' s'"
          then show ?thesis by (intro disjI1 replace_keeps_space) auto
        next
          assume "prefix ''!-- '' s'"
          then obtain s'' where s': "s' = ''!-- '' @ s''" by (auto simp: prefix_def)
          have "py_replace ''--'' '' -- '' s' =
                CHR ''!'' # py_replace ''--'' '' -- '' (''-- '' @ s'')"
            unfolding s' by (subst py_replace.simps) simp
          also have "py_replace ''--'' '' -- '' (''-- '' @ s'') =
                '' -- '' @ py_replace ''--'' '' -- '' ('' '' @ s'')"
            by (subst py_replace.simps) simp
          finally show ?thesis by simp
        qed
      qed
      then show ?thesis using False ne s ih by (subst py_replace.simps) auto
    qed
  qed
qed

lemma tokens_lt:
  "lt_followed_by ['' '', ''! ''] s \<Longrightarrow> t \<in> set (findall_tokens s) \<Longrightarrow>
   py_startswith t ''<'' \<Longrightarrow> t = ''<'' \<or> t = ''<!''"
proof (induction s rule: findall_tokens.induct)
  case 1
  then show ?case by simp
next
  case (2 c cs)
  have rest: "lt_followed_by ['' '', ''! ''] cs" using "2.prems"(1) by simp
  show ?case
  proof (cases "py_isspace c")
    case False
    have drop: "lt_followed_by ['' '', ''! ''] (dropWhile (\<lambda>x. \<not> py_isspace x) cs)"
      using rest by (rule lt_followed_by_dropWhile)
    from "2.prems"(2) False
    consider "t = takeWhile (\<lambda>x. \<not> py_isspace x) (c # cs)"
      | "t \<in> set (findall_tokens (dropWhile (\<lambda>x. \<not> py_isspace x) cs))"
      by auto
    then show ?thesis
    proof cases
      case 1
      then have c: "c = CHR ''<''" using "2.prems"(3) False by (simp add: py_startswith_def)
      then have "prefix '' '' cs \<or> prefix ''! '' cs" using "2.prems"(1) by simp
      then show ?thesis
      proof
        assume "prefix '' '' cs"
        then obtain r where "cs = '' '' @ r" by (auto simp: prefix_def)
        then show ?thesis using 1 c False by (simp add: py_isspace_def)
      next
        assume "prefix ''! '' cs"
        then obtain r where "cs = ''! '' @ r" by (auto simp: prefix_def)
        then show ?thesis using 1 c False by (simp add: py_isspace_def)
      qed
    next
      case 2
      then show ?thesis using "2.IH"(1) False drop "2.prems"(3) by simp
    qed
  next
    case True
    show ?thesis
    proof (cases "c = CHR 0x0A")
      case nl: True
      then have "t = [CHR 0x0A] \<or> t \<in> set (findall_tokens cs)"
        using "2.prems"(2) True by simp
      then show ?thesis using "2.IH"(2) True nl rest "2.prems"(3)
        by (auto simp: py_startswith_def)
    next
      case False
      then show ?thesis using "2.IH"(3) True rest "2.prems" by simp
    qed
  qed
qed


lemma xml_text_lt:
  "lt_followed_by ['' '', ''! '']
     (foldl (\<lambda>content (origin, mapped). py_replace origin mapped content) file_content
        xml_token_mappings)"
proof -
  let ?pad = "\<lambda>k s. concat (map (\<lambda>c. if c = k then [CHR '' '', k, CHR '' ''] else [c]) s)"
  have 1: "lt_followed_by ['' ''] (?pad CHR ''<'' file_content)"
    using pad_lt [of file_content] by simp
  have 2: "lt_followed_by ['' ''] (?pad CHR ''>'' (?pad CHR ''<'' file_content))"
    by (rule pad_other [OF _ _ 1]) simp_all
  have 3: "lt_followed_by ['' ''] (?pad CHR ''/'' (?pad CHR ''>'' (?pad CHR ''<'' file_content)))"
    by (rule pad_other [OF _ _ 2]) simp_all
  have 4: "lt_followed_by ['' ''] (?pad CHR ''='' (?pad CHR ''/'' (?pad CHR ''>''
      (?pad CHR ''<'' file_content))))"
    by (rule pad_other [OF _ _ 3]) simp_all
  have 5: "lt_followed_by ['' ''] (?pad (CHR 0x22) (?pad CHR ''='' (?pad CHR ''/'' (?pad CHR ''>''
      (?pad CHR ''<'' file_content)))))"
    by (rule pad_other [OF _ _ 4]) simp_all
  show ?thesis
    unfolding xml_token_mappings_def
    using stage_dashes [OF stage_comment [OF 5]]
    by (simp add: py_replace_single)
qed

lemma xml_tokens_lt:
  "t \<in> set (preprocess_file_content_and_generate_token_list_by_mapping file_content
       xml_token_mappings) \<Longrightarrow>
   py_startswith t ''<'' \<Longrightarrow> t = ''<'' \<or> t = ''<!''"
  unfolding preprocess_file_content_and_generate_token_list_by_mapping_def
  using tokens_lt [OF xml_text_lt] by blast

lemma xml_tags_loop_eq:
  "xml_tags_loop tokens deps =
     deps @ map xml_tag_name (filter (\<lambda>t. py_startswith t ''<'') tokens)"
  by (induction tokens arbitrary: deps) auto

lemma xml_tag_name_lt: "xml_tag_name ''<'' = []" and xml_tag_name_lt_bang: "xml_tag_name ''<!'' = ''!''"
  by code_simp+

lemma xml_tags_of_tokens:
  "xml_tags_loop (preprocess_file_content_and_generate_token_list_by_mapping file_content
       xml_token_mappings) deps =
   deps @ map (\<lambda>t. if t = ''<'' then [] else ''!'')
     (filter (\<lambda>t. py_startswith t ''<'')
        (preprocess_file_content_and_generate_token_list_by_mapping file_content
           xml_token_mappings))"
  unfolding xml_tags_loop_eq
  by (auto intro!: map_cong dest: xml_tokens_lt simp: xml_tag_name_lt xml_tag_name_lt_bang)

text \<open>
  C10, as the claim states it, fails: a nonempty entry is recorded. The token map turns
  the comment opener of \<open><!-- c -->\<close> into the tokens \<open><\<close>, \<open><!\<close> and \<open>--\<close>, and the token
  \<open><!\<close> gives the entry \<open>!\<close>.
\<close>

theorem C10_nonempty_tag_counterexample:
  "preprocess_file_content_and_generate_token_list_by_mapping ''<!-- c -->'' xml_token_mappings =
     [''<'', ''<!'', ''--'', ''c'', ''--'', ''>''] \<and>
   map scanned_import_dependencies (file_results_of
     (xml_generate_file_result_from_analysis ''/h/'' [] ''a.xml'' ''/h/p/a.xml'' ''<!-- c -->'')) =
     [[[], ''!'']]"
  by code_simp

text \<open>
  C10, amended: in the XML parser, for every input file, every token that starts with \<open><\<close>
  is the token \<open><\<close> or the token \<open><!\<close>, and tag extraction appends one entry for each of
  them, in order: the empty string for \<open><\<close>, and \<open>!\<close> for \<open><!\<close> (the token that the
  entries for \<open>!--\<close> and \<open>--\<close> of the token map make of each \<open>!--\<close> of the input). So no
  tag name of the document is ever recorded as a dependency.
\<close>

theorem C10_xml_tags_are_empty_or_bang:
  "(\<forall>t \<in> set (preprocess_file_content_and_generate_token_list_by_mapping file_content
        xml_token_mappings). py_startswith t ''<'' \<longrightarrow> t = ''<'' \<or> t = ''<!'') \<and>
   xml_tags_loop (preprocess_file_content_and_generate_token_list_by_mapping file_content
       xml_token_mappings) deps =
     deps @ map (\<lambda>t. if t = ''<'' then [] else ''!'')
       (filter (\<lambda>t. py_startswith t ''<'')
          (preprocess_file_content_and_generate_token_list_by_mapping file_content
             xml_token_mappings)) \<and>
   map scanned_import_dependencies (file_results_of
     (xml_generate_file_result_from_analysis parent_path [] file_name full_path file_content)) =
     [map (\<lambda>t. if t = ''<'' then [] else ''!'')
        (filter (\<lambda>t. py_startswith t ''<'')
           (preprocess_file_content_and_generate_token_list_by_mapping file_content
              xml_token_mappings))]"
proof (intro conjI ballI impI)
  fix t
  assume "t \<in> set (preprocess_file_content_and_generate_token_list_by_mapping file_content
        xml_token_mappings)" "py_startswith t ''<''"
  then show "t = ''<'' \<or> t = ''<!''" by (rule xml_tokens_lt)
next
  show "xml_tags_loop (preprocess_file_content_and_generate_token_list_by_mapping file_content
       xml_token_mappings) deps =
     deps @ map (\<lambda>t. if t = ''<'' then [] else ''!'')
       (filter (\<lambda>t. py_startswith t ''<'')
          (preprocess_file_content_and_generate_token_list_by_mapping file_content
             xml_token_mappings))"
    by (rule xml_tags_of_tokens)
next
  show "map scanned_import_dependencies (file_results_of
     (xml_generate_file_result_from_analysis parent_path [] file_name full_path file_content)) =
     [map (\<lambda>t. if t = ''<'' then [] else ''!'')
        (filter (\<lambda>t. py_startswith t ''<'')
           (preprocess_file_content_and_generate_token_list_by_mapping file_content
              xml_token_mappings))]"
    using xml_tags_of_tokens [of file_content "[]"]
    by (simp add: xml_generate_file_result_from_analysis_def Let_def register_def
        xml_add_tags_to_result_def create_file_result_def)
qed

theorem C10_xml_tags_are_empty_or_bang_witness:
  "preprocess_file_content_and_generate_token_list_by_mapping ''<a>!--'' xml_token_mappings =
     [''<'', ''a'', ''>'', ''<!'', ''--''] \<and>
   xml_tags_loop [''<'', ''a'', ''>'', ''<!'', ''--''] [] = [[], ''!''] \<and>
   map scanned_import_dependencies (file_results_of
     (xml_generate_file_result_from_analysis ''/h/'' [] ''a.xml'' ''/h/p/a.xml'' ''<a>!--'')) =
     [[[], ''!'']]"
proof -
  have toks: "preprocess_file_content_and_generate_token_list_by_mapping ''<a>!--''
      xml_token_mappings = [''<'', ''a'', ''>'', ''<!'', ''--'']"
    by code_simp
  have "xml_tags_loop [''<'', ''a'', ''>'', ''<!'', ''--''] [] =
      [] @ map (\<lambda>t. if t = ''<'' then [] else ''!'')
        (filter (\<lambda>t. py_startswith t ''<'') [''<'', ''a'', ''>'', ''<!'', ''--''])"
    using C10_xml_tags_are_empty_or_bang [of "''<a>!--''" "[]"] unfolding toks by blast
  moreover have "map scanned_import_dependencies (file_results_of
     (xml_generate_file_result_from_analysis ''/h/'' [] ''a.xml'' ''/h/p/a.xml'' ''<a>!--'')) =
     [map (\<lambda>t. if t = ''<'' then [] else ''!'')
        (filter (\<lambda>t. py_startswith t ''<'') [''<'', ''a'', ''>'', ''<!'', ''--''])]"
    using C10_xml_tags_are_empty_or_bang [of "''<a>!--''" "[]" "''/h/''" "''a.xml''"
        "''/h/p/a.xml''"] unfolding toks by blast
  ultimately show ?thesis using toks by (simp add: py_startswith_def)
qed

section \<open>Properties of token normalization\<close>

lemma takeWhile_stop: "\<not> P c \<Longrightarrow> takeWhile P (xs @ c # ys) = takeWhile P xs"
  by (induction xs) auto

lemma dropWhile_stop: "\<not> P c \<Longrightarrow> dropWhile P (xs @ c # ys) = dropWhile P xs @ c # ys"
  by (induction xs) auto

lemma findall_tokens_space_char:
  "py_isspace c \<Longrightarrow> findall_tokens (c # y) = (if c = CHR 0x0A then [[CHR 0x0A]] else []) @ findall_tokens y"
  by simp

lemma findall_tokens_split:
  "py_isspace c \<Longrightarrow>
   findall_tokens (x @ c # y) =
     findall_tokens x @ (if c = CHR 0x0A then [[CHR 0x0A]] else []) @ findall_tokens y"
proof (induction x rule: findall_tokens.induct)
  case 1
  then show ?case by simp
next
  case (2 d ds)
  show ?case
  proof (cases "py_isspace d")
    case False
    have t: "takeWhile (\<lambda>x. \<not> py_isspace x) (ds @ c # y) = takeWhile (\<lambda>x. \<not> py_isspace x) ds"
      using "2.prems" by (intro takeWhile_stop) simp
    have d: "dropWhile (\<lambda>x. \<not> py_isspace x) (ds @ c # y) =
             dropWhile (\<lambda>x. \<not> py_isspace x) ds @ c # y"
      using "2.prems" by (intro dropWhile_stop) simp
    show ?thesis using False "2.IH"(1) "2.prems" by (simp add: t d)
  next
    case True
    then show ?thesis using "2.IH"(2,3) "2.prems" by (cases "d = CHR 0x0A") simp_all
  qed
qed

lemma space_isspace: "py_isspace CHR '' ''"
  by (simp add: py_isspace_def)

lemma findall_tokens_space:
  "findall_tokens (x @ CHR '' '' # y) = findall_tokens x @ findall_tokens y"
  using findall_tokens_split [OF space_isspace, of x y] by simp

lemma findall_tokens_word:
  "w \<noteq> [] \<Longrightarrow> \<forall>c \<in> set w. \<not> py_isspace c \<Longrightarrow> findall_tokens w = [w]"
proof -
  assume a: "w \<noteq> []" "\<forall>c \<in> set w. \<not> py_isspace c"
  then obtain c cs where w: "w = c # cs" by (cases w) auto
  have tw: "takeWhile (\<lambda>x. \<not> py_isspace x) (c # cs) = c # cs"
    using a w by (simp add: takeWhile_eq_all_conv)
  have dw: "dropWhile (\<lambda>x. \<not> py_isspace x) cs = []"
    using a w by (simp add: dropWhile_eq_Nil_conv)
  have "findall_tokens (c # cs) =
      takeWhile (\<lambda>x. \<not> py_isspace x) (c # cs) #
        findall_tokens (dropWhile (\<lambda>x. \<not> py_isspace x) cs)"
    using a w by simp
  then show ?thesis unfolding tw dw w by simp
qed

lemma findall_tokens_shape:
  "t \<in> set (findall_tokens s) \<Longrightarrow>
   t = [CHR 0x0A] \<or> (t \<noteq> [] \<and> (\<forall>c \<in> set t. \<not> py_isspace c))"
proof (induction s rule: findall_tokens.induct)
  case 1
  then show ?case by simp
next
  case (2 c cs)
  show ?case
  proof (cases "py_isspace c")
    case False
    then consider "t = takeWhile (\<lambda>x. \<not> py_isspace x) (c # cs)"
      | "t \<in> set (findall_tokens (dropWhile (\<lambda>x. \<not> py_isspace x) cs))"
      using "2.prems" by auto
    then show ?thesis
    proof cases
      case 1
      then show ?thesis using False by (auto dest: set_takeWhileD)
    next
      case 2
      then show ?thesis using "2.IH"(1) False by simp
    qed
  next
    case True
    then show ?thesis using "2.IH"(2,3) "2.prems" by (cases "c = CHR 0x0A") auto
  qed
qed

lemma findall_tokens_token:
  "t \<in> set (findall_tokens s) \<Longrightarrow> findall_tokens t = [t]"
  using findall_tokens_shape [of t s] findall_tokens_word [of t]
  by (auto simp: py_isspace_def)

lemma rep_Nil: "old \<noteq> [] \<Longrightarrow> py_replace old new [] = []"
  by (subst py_replace.simps) simp

lemma rep_match: "old \<noteq> [] \<Longrightarrow> py_replace old new (old @ s) = new @ py_replace old new s"
  by (subst py_replace.simps) simp

lemma rep_skip:
  "old \<noteq> [] \<Longrightarrow> \<not> prefix old (c # s) \<Longrightarrow> py_replace old new (c # s) = c # py_replace old new s"
  by (subst py_replace.simps) simp

lemma prefix_stop: "c \<notin> set old \<Longrightarrow> prefix old (x @ c # y) \<longleftrightarrow> prefix old x"
proof
  assume c: "c \<notin> set old" and p: "prefix old (x @ c # y)"
  then consider "prefix old x" | us where "old = x @ us" "prefix us (c # y)"
    by (auto simp: prefix_append)
  then show "prefix old x"
  proof cases
    case 1
    then show ?thesis .
  next
    case 2
    then show ?thesis using c by (cases us) (auto simp: prefix_Cons)
  qed
next
  assume "prefix old x"
  then show "prefix old (x @ c # y)" by (simp add: prefix_prefix)
qed

lemma rep_local:
  "old \<noteq> [] \<Longrightarrow> c \<notin> set old \<Longrightarrow>
   py_replace old new (x @ c # y) = py_replace old new x @ c # py_replace old new y"
proof (induction old new x rule: py_replace.induct)
  case (1 old new x)
  show ?case
  proof (cases "x = []")
    case True
    have "\<not> prefix old (c # y)" using "1.prems" by (cases old) auto
    then show ?thesis using True "1.prems" by (simp add: rep_skip rep_Nil)
  next
    case ne: False
    show ?thesis
    proof (cases "prefix old x")
      case True
      then obtain x' where x: "x = old @ x'" by (auto simp: prefix_def)
      have "py_replace old new (x' @ c # y) = py_replace old new x' @ c # py_replace old new y"
        using "1.IH"(1) "1.prems" ne True x by simp
      then show ?thesis using "1.prems" unfolding x by (simp add: rep_match)
    next
      case False
      obtain d x' where x: "x = d # x'" using ne by (cases x) auto
      have np: "\<not> prefix old ((d # x') @ c # y)"
        using False "1.prems" prefix_stop [of c old x y] x by simp
      have "py_replace old new (x' @ c # y) = py_replace old new x' @ c # py_replace old new y"
        using "1.IH"(2) "1.prems" ne False x by simp
      then show ?thesis using "1.prems" False np unfolding x by (simp add: rep_skip)
    qed
  qed
qed

lemma flush_sublist: "sublist u t \<Longrightarrow> flush q lp t \<Longrightarrow> flush q lp u"
  unfolding flush_def sublist_def
  by (metis append.assoc append_is_Nil_conv)

lemma flush_newline:
  "old \<noteq> [] \<Longrightarrow> \<forall>c \<in> set old. \<not> py_isspace c \<Longrightarrow> flush old lp [CHR 0x0A]"
  unfolding flush_def
proof (intro allI impI)
  fix a b
  assume o: "old \<noteq> []" "\<forall>c \<in> set old. \<not> py_isspace c" and e: "[CHR 0x0A] = a @ old @ b"
  then have "set old \<subseteq> {CHR 0x0A}" by (metis Un_upper1 Un_upper2 list.simps(15) set_append set_empty subset_trans)
  then have False using o by (cases old) (auto simp: py_isspace_def)
  then show "b = [] \<and> (lp \<longrightarrow> a = [])" ..
qed

lemma findall_tokens_word_then:
  "w \<noteq> [] \<Longrightarrow> \<forall>c \<in> set w. \<not> py_isspace c \<Longrightarrow>
   findall_tokens (w @ y) =
     (w @ takeWhile (\<lambda>x. \<not> py_isspace x) y) #
       findall_tokens (dropWhile (\<lambda>x. \<not> py_isspace x) y)"
proof -
  assume a: "w \<noteq> []" "\<forall>c \<in> set w. \<not> py_isspace c"
  then obtain c cs where w: "w = c # cs" by (cases w) auto
  have tw: "takeWhile (\<lambda>x. \<not> py_isspace x) ((c # cs) @ y) =
      (c # cs) @ takeWhile (\<lambda>x. \<not> py_isspace x) y"
    using a w by (intro takeWhile_append2) auto
  have dw: "dropWhile (\<lambda>x. \<not> py_isspace x) (cs @ y) = dropWhile (\<lambda>x. \<not> py_isspace x) y"
    using a w by (intro dropWhile_append2) auto
  have "findall_tokens ((c # cs) @ y) =
      takeWhile (\<lambda>x. \<not> py_isspace x) ((c # cs) @ y) #
        findall_tokens (dropWhile (\<lambda>x. \<not> py_isspace x) (cs @ y))"
    using a w by simp
  then show ?thesis unfolding tw dw w .
qed

lemma findall_tokens_cur:
  "\<forall>c \<in> set cur. \<not> py_isspace c \<Longrightarrow> u \<in> set (findall_tokens cur) \<Longrightarrow> u = cur \<and> cur \<noteq> []"
  using findall_tokens_word [of cur] by (cases "cur = []") auto

lemma flush_cur:
  assumes old: "old \<noteq> []"
    and G: "\<forall>a b. cur @ s = a @ old @ b \<longrightarrow> length cur \<le> length a"
  shows "flush old lp cur"
  unfolding flush_def
proof (intro allI impI)
  fix a b assume e: "cur = a @ old @ b"
  then have "cur @ s = a @ old @ (b @ s)" by simp
  then have "length cur \<le> length a" using G by blast
  moreover have "length cur = length a + length old + length b" using e by simp
  ultimately have "length old = 0" by simp
  then have False using old by simp
  then show "b = [] \<and> (lp \<longrightarrow> a = [])" ..
qed

lemma flush_self: "old \<noteq> [] \<Longrightarrow> flush old lp old"
  unfolding flush_def
proof (intro allI impI)
  fix a b assume "old \<noteq> []" "old = a @ old @ b"
  then have "length old = length (a @ old @ b)" by simp
  then have "length old = length a + length old + length b" by simp
  then show "b = [] \<and> (lp \<longrightarrow> a = [])" by simp
qed

lemma established:
  assumes old: "old \<noteq> []" and ws: "\<forall>c \<in> set old. \<not> py_isspace c"
  shows "\<forall>c \<in> set cur. \<not> py_isspace c \<Longrightarrow>
     \<forall>a b. cur @ s = a @ old @ b \<longrightarrow> length cur \<le> length a \<Longrightarrow>
     u \<in> set (findall_tokens (cur @ py_replace old (padded old lp) s)) \<Longrightarrow>
     flush old lp u"
  using old ws
proof (induction old "padded old lp" s arbitrary: cur u rule: py_replace.induct)
  case (1 old s)
  note old = \<open>old \<noteq> []\<close> and ws = \<open>\<forall>c \<in> set old. \<not> py_isspace c\<close>
  note cur = "1.prems"(1) and G = "1.prems"(2) and u = "1.prems"(3)
  have fcur: "flush old lp cur" using old G by (rule flush_cur)
  show ?case
  proof (cases "s = []")
    case True
    then have "u = cur" using u cur old findall_tokens_cur [of cur u] by (simp add: rep_Nil)
    then show ?thesis using fcur by simp
  next
    case ne: False
    show ?thesis
    proof (cases "prefix old s")
      case True
      then obtain s' where s: "s = old @ s'" by (auto simp: prefix_def)
      have out: "cur @ py_replace old (padded old lp) s =
          (cur @ (if lp then '' '' else []) @ old) @ CHR '' '' # py_replace old (padded old lp) s'"
        unfolding s using old by (simp add: rep_match padded_def)
      from u consider
        (head) "u \<in> set (findall_tokens (cur @ (if lp then '' '' else []) @ old))"
        | (tail) "u \<in> set (findall_tokens ([] @ py_replace old (padded old lp) s'))"
        unfolding out findall_tokens_space by auto
      then show ?thesis
      proof cases
        case tail
        have d: "drop (length old) s = s'" unfolding s by simp
        show ?thesis
          using "1.hyps"(1) [OF old ne True, of "[]" u] tail old ws d by simp
      next
        case head
        show ?thesis
        proof (cases lp)
          case True
          then have "u \<in> set (findall_tokens cur) \<or> u \<in> set (findall_tokens old)"
            using head findall_tokens_space [of cur old] by auto
          then have "u = cur \<or> u = old"
            using findall_tokens_cur [of cur u] findall_tokens_cur [of old u] cur ws by auto
          then show ?thesis using fcur flush_self [OF old] by auto
        next
          case False
          then have "u = cur @ old"
            using head findall_tokens_cur [of "cur @ old" u] cur ws by auto
          moreover have "flush old False (cur @ old)"
            unfolding flush_def
          proof (intro allI impI)
            fix a b assume e: "cur @ old = a @ old @ b"
            then have "cur @ s = a @ old @ (b @ s')" unfolding s by simp
            then have "length cur \<le> length a" using G by blast
            moreover have "length (cur @ old) = length (a @ old @ b)"
              using e by simp
            ultimately show "b = [] \<and> (False \<longrightarrow> a = [])" by simp
          qed
          ultimately show ?thesis using False by simp
        qed
      qed
    next
      case np: False
      obtain c s' where s: "s = c # s'" using ne by (cases s) auto
      have out: "cur @ py_replace old (padded old lp) s =
          cur @ c # py_replace old (padded old lp) s'"
        unfolding s using old np s by (simp add: rep_skip)
      show ?thesis
      proof (cases "py_isspace c")
        case True
        from u consider "u \<in> set (findall_tokens cur)" | "u = [CHR 0x0A]"
          | "u \<in> set (findall_tokens ([] @ py_replace old (padded old lp) s'))"
          unfolding out findall_tokens_split [OF True] by (auto split: if_splits)
        then show ?thesis
        proof cases
          case 1
          then show ?thesis using findall_tokens_cur [of cur u] cur fcur by auto
        next
          case 2
          then show ?thesis using flush_newline [OF old ws] by simp
        next
          case 3
          show ?thesis
            using "1.hyps"(2) [OF old ne np, of "[]" u] 3 old ws s by simp
        qed
      next
        case False
        have u': "u \<in> set (findall_tokens ((cur @ [c]) @ py_replace old (padded old lp) s'))"
          using u unfolding out by simp
        have G': "\<forall>a b. (cur @ [c]) @ s' = a @ old @ b \<longrightarrow> length (cur @ [c]) \<le> length a"
        proof (intro allI impI)
          fix a b assume e: "(cur @ [c]) @ s' = a @ old @ b"
          then have e': "cur @ s = a @ old @ b" unfolding s by simp
          then have le: "length cur \<le> length a" using G by blast
          have "length a \<noteq> length cur"
          proof
            assume "length a = length cur"
            then have "a = cur" "s = old @ b" using e' by auto
            then show False using np by simp
          qed
          then show "length (cur @ [c]) \<le> length a" using le by simp
        qed
        have c': "\<forall>x \<in> set (cur @ [c]). \<not> py_isspace x" using cur False by simp
        have t: "tl s = s'" unfolding s by simp
        show ?thesis
          using "1.hyps"(2) [OF old ne np, of "cur @ [c]" u] c' G' u' old ws unfolding t
          by blast
      qed
    qed
  qed
qed

lemma findall_tokens_after_word:
  assumes w: "\<forall>c \<in> set w. \<not> py_isspace c" and t: "t \<in> set (findall_tokens y)"
  shows "\<exists>t' \<in> set (findall_tokens (w @ y)). sublist t t'"
proof (cases "w = []")
  case True
  then show ?thesis using t by auto
next
  case wne: False
  show ?thesis
  proof (cases y)
    case Nil
    then show ?thesis using t by simp
  next
    case (Cons d ds)
    show ?thesis
    proof (cases "py_isspace d")
      case True
      have "findall_tokens (w @ d # ds) =
          findall_tokens w @ (if d = CHR 0x0A then [[CHR 0x0A]] else []) @ findall_tokens ds"
        using True by (rule findall_tokens_split)
      moreover have "findall_tokens (d # ds) =
          (if d = CHR 0x0A then [[CHR 0x0A]] else []) @ findall_tokens ds"
        using True by simp
      ultimately have "t \<in> set (findall_tokens (w @ y))" using t Cons by auto
      then show ?thesis by auto
    next
      case False
      have y: "findall_tokens y = takeWhile (\<lambda>x. \<not> py_isspace x) y #
          findall_tokens (dropWhile (\<lambda>x. \<not> py_isspace x) y)"
        using False Cons by simp
      have wy: "findall_tokens (w @ y) = (w @ takeWhile (\<lambda>x. \<not> py_isspace x) y) #
          findall_tokens (dropWhile (\<lambda>x. \<not> py_isspace x) y)"
        using wne w by (rule findall_tokens_word_then)
      from t y consider "t = takeWhile (\<lambda>x. \<not> py_isspace x) y"
        | "t \<in> set (findall_tokens (dropWhile (\<lambda>x. \<not> py_isspace x) y))" by auto
      then show ?thesis
      proof cases
        case 1
        then have "sublist t (w @ takeWhile (\<lambda>x. \<not> py_isspace x) y)" by simp
        then show ?thesis unfolding wy by auto
      next
        case 2
        then show ?thesis unfolding wy by auto
      qed
    qed
  qed
qed

lemma sub_tokens:
  assumes old: "old \<noteq> []" and ws: "\<forall>c \<in> set old. \<not> py_isspace c"
  shows "\<forall>c \<in> set cur. \<not> py_isspace c \<Longrightarrow>
     u \<in> set (findall_tokens (cur @ py_replace old (padded old lp) s)) \<Longrightarrow>
     \<exists>t \<in> set (findall_tokens (cur @ s)). sublist u t"
  using old ws
proof (induction old "padded old lp" s arbitrary: cur u rule: py_replace.induct)
  case (1 old s)
  note old = \<open>old \<noteq> []\<close> and ws = \<open>\<forall>c \<in> set old. \<not> py_isspace c\<close>
  note cur = "1.prems"(1) and u = "1.prems"(2)
  show ?case
  proof (cases "s = []")
    case True
    then show ?thesis using u old by (auto simp: rep_Nil)
  next
    case ne: False
    show ?thesis
    proof (cases "prefix old s")
      case True
      then obtain s' where s: "s = old @ s'" by (auto simp: prefix_def)
      have d: "drop (length old) s = s'" unfolding s by simp
      have out: "cur @ py_replace old (padded old lp) s =
          (cur @ (if lp then '' '' else []) @ old) @ CHR '' '' # py_replace old (padded old lp) s'"
        unfolding s using old by (simp add: rep_match padded_def)
      have co: "\<forall>c \<in> set (cur @ old). \<not> py_isspace c" "cur @ old \<noteq> []"
        using cur ws old by auto
      have inp: "findall_tokens (cur @ s) =
          ((cur @ old) @ takeWhile (\<lambda>x. \<not> py_isspace x) s') #
            findall_tokens (dropWhile (\<lambda>x. \<not> py_isspace x) s')"
        using findall_tokens_word_then [OF co(2) co(1), of s'] unfolding s by simp
      from u consider
        (head) "u \<in> set (findall_tokens (cur @ (if lp then '' '' else []) @ old))"
        | (tail) "u \<in> set (findall_tokens ([] @ py_replace old (padded old lp) s'))"
        unfolding out findall_tokens_space by auto
      then show ?thesis
      proof cases
        case tail
        have "\<exists>t \<in> set (findall_tokens ([] @ s')). sublist u t"
          using "1.hyps"(1) [OF old ne True, of "[]" u] tail old ws d by simp
        then obtain t where t: "t \<in> set (findall_tokens s')" "sublist u t" by auto
        obtain t' where "t' \<in> set (findall_tokens ((cur @ old) @ s'))" "sublist t t'"
          using findall_tokens_after_word [OF co(1) t(1)] by blast
        then show ?thesis using t(2) unfolding s by (auto intro: sublist_order.order_trans)
      next
        case head
        have "u = cur \<or> u = old \<or> u = cur @ old"
        proof (cases lp)
          case True
          then have "u \<in> set (findall_tokens cur) \<or> u \<in> set (findall_tokens old)"
            using head findall_tokens_space [of cur old] by auto
          then show ?thesis
            using findall_tokens_cur [of cur u] findall_tokens_cur [of old u] cur ws by auto
        next
          case False
          then show ?thesis using head findall_tokens_cur [of "cur @ old" u] co by auto
        qed
        then have "sublist u (cur @ old)" by auto
        then have "sublist u ((cur @ old) @ takeWhile (\<lambda>x. \<not> py_isspace x) s')"
          unfolding sublist_def by (metis append.assoc)
        then show ?thesis unfolding inp by auto
      qed
    next
      case np: False
      obtain c s' where s: "s = c # s'" using ne by (cases s) auto
      have t: "tl s = s'" unfolding s by simp
      have out: "cur @ py_replace old (padded old lp) s =
          cur @ c # py_replace old (padded old lp) s'"
        unfolding s using old np s by (simp add: rep_skip)
      show ?thesis
      proof (cases "py_isspace c")
        case True
        have inp: "findall_tokens (cur @ s) =
            findall_tokens cur @ (if c = CHR 0x0A then [[CHR 0x0A]] else []) @ findall_tokens s'"
          unfolding s using True by (rule findall_tokens_split)
        from u consider "u \<in> set (findall_tokens cur)" | "c = CHR 0x0A" "u = [CHR 0x0A]"
          | "u \<in> set (findall_tokens ([] @ py_replace old (padded old lp) s'))"
          unfolding out findall_tokens_split [OF True] by (auto split: if_splits)
        then show ?thesis
        proof cases
          case 1
          then show ?thesis unfolding inp by auto
        next
          case 2
          then show ?thesis unfolding inp by auto
        next
          case 3
          have "\<exists>t \<in> set (findall_tokens ([] @ s')). sublist u t"
            using "1.hyps"(2) [OF old ne np, of "[]" u] 3 old ws t by simp
          then show ?thesis unfolding inp by auto
        qed
      next
        case False
        have u': "u \<in> set (findall_tokens ((cur @ [c]) @ py_replace old (padded old lp) s'))"
          using u unfolding out by simp
        have c': "\<forall>x \<in> set (cur @ [c]). \<not> py_isspace x" using cur False by simp
        have "\<exists>t \<in> set (findall_tokens ((cur @ [c]) @ s')). sublist u t"
          using "1.hyps"(2) [OF old ne np, of "cur @ [c]" u] c' u' old ws unfolding t by blast
        then show ?thesis unfolding s by simp
      qed
    qed
  qed
qed

lemma rep_none:
  "old \<noteq> [] \<Longrightarrow> \<not> sublist old t \<Longrightarrow> py_replace old new t = t"
proof (induction t)
  case Nil
  then show ?case by (simp add: rep_Nil)
next
  case (Cons c t)
  then have "\<not> prefix old (c # t)" "\<not> sublist old t"
    by (auto simp: sublist_Cons_right)
  then show ?case using Cons by (simp add: rep_skip)
qed

lemma rep_copy:
  "old \<noteq> [] \<Longrightarrow> \<forall>k < length a. \<not> prefix old (drop k (a @ z)) \<Longrightarrow>
   py_replace old new (a @ z) = a @ py_replace old new z"
proof (induction a)
  case Nil
  then show ?case by simp
next
  case (Cons c a)
  have "\<not> prefix old (c # a @ z)" using Cons.prems(2) by (auto dest: spec [of _ 0])
  moreover have "\<forall>k < length a. \<not> prefix old (drop k (a @ z))"
  proof (intro allI impI)
    fix k assume "k < length a"
    then have "\<not> prefix old (drop (Suc k) ((c # a) @ z))" using Cons.prems(2) by auto
    then show "\<not> prefix old (drop k (a @ z))" by simp
  qed
  ultimately show ?case using Cons by (simp add: rep_skip)
qed

lemma fixed_token:
  assumes old: "old \<noteq> []" and f: "flush old lp t"
  shows "py_replace old (padded old lp) t = t \<or>
         py_replace old (padded old lp) t = (if lp then '' '' else []) @ t @ '' ''"
proof (cases "sublist old t")
  case False
  then show ?thesis using old by (simp add: rep_none)
next
  case True
  then obtain a b where t: "t = a @ old @ b" by (auto simp: sublist_def)
  then have b: "b = []" and a: "lp \<longrightarrow> a = []" using f by (auto simp: flush_def)
  have "\<forall>k < length a. \<not> prefix old (drop k (a @ old))"
  proof (intro allI impI notI)
    fix k assume k: "k < length a" and p: "prefix old (drop k (a @ old))"
    then obtain b' where d: "drop k (a @ old) = old @ b'" by (auto simp: prefix_def)
    have "a @ old = take k (a @ old) @ drop k (a @ old)"
      by (rule append_take_drop_id [symmetric])
    moreover have "take k (a @ old) = take k a" using k by simp
    ultimately have "a @ old = take k a @ old @ b'" unfolding d by simp
    then have e: "t = take k a @ old @ b'" using t b by simp
    then have "b' = []" using f by (auto simp: flush_def)
    then have "length t = k + length old" using e k by simp
    then show False using t b k by simp
  qed
  then have "py_replace old (padded old lp) (a @ old) = a @ py_replace old (padded old lp) old"
    using old by (intro rep_copy)
  moreover have "py_replace old (padded old lp) old = padded old lp"
    using rep_match [OF old, of "padded old lp" "[]"] old by (simp add: rep_Nil)
  ultimately show ?thesis using t a b by (auto simp: padded_def)
qed

lemma substituted_Nil: "substituted [] s = s"
  by (simp add: substituted_def)

lemma substituted_Cons:
  "substituted ((old, new) # m) s = substituted m (py_replace old new s)"
  by (simp add: substituted_def)

lemma preprocess_substituted:
  "preprocess_file_content_and_generate_token_list_by_mapping s m =
     findall_tokens (substituted m s)"
  by (simp add: preprocess_file_content_and_generate_token_list_by_mapping_def substituted_def)

lemma entry_facts:
  assumes "pads_its_pattern (old, new)"
  shows "old \<noteq> []" "\<forall>c \<in> set old. \<not> py_isspace c" "CHR '' '' \<notin> set old"
    "new = padded old (new \<noteq> old @ '' '')"
  using assms space_isspace
  by (auto simp: pads_its_pattern_def list_ex_iff padded_def)

lemma substituted_local:
  "well_padded m \<Longrightarrow>
   substituted m (x @ CHR '' '' # y) = substituted m x @ CHR '' '' # substituted m y"
proof (induction m arbitrary: x y)
  case Nil
  then show ?case by (simp add: substituted_Nil)
next
  case (Cons e m)
  obtain old new where e: "e = (old, new)" by (cases e)
  have ok: "pads_its_pattern (old, new)" and m: "well_padded m"
    using Cons.prems by (simp_all add: well_padded_def e)
  show ?case
    unfolding e substituted_Cons
    using rep_local [OF entry_facts(1) [OF ok] entry_facts(3) [OF ok]] Cons.IH [OF m] by simp
qed

lemma substituted_empty: "well_padded m \<Longrightarrow> substituted m [] = []"
proof (induction m)
  case Nil
  then show ?case by (simp add: substituted_Nil)
next
  case (Cons e m)
  obtain old new where e: "e = (old, new)" by (cases e)
  have ok: "pads_its_pattern (old, new)" and m: "well_padded m"
    using Cons.prems by (simp_all add: well_padded_def e)
  show ?case unfolding e substituted_Cons using rep_Nil [OF entry_facts(1) [OF ok]] Cons.IH [OF m]
    by simp
qed

lemma flush_preserved:
  "well_padded m \<Longrightarrow> \<forall>u \<in> set (findall_tokens s). flush q lp u \<Longrightarrow>
   u \<in> set (findall_tokens (substituted m s)) \<Longrightarrow> flush q lp u"
proof (induction m arbitrary: s u)
  case Nil
  then show ?case by (simp add: substituted_Nil)
next
  case (Cons e m)
  obtain old new where e: "e = (old, new)" by (cases e)
  have ok: "pads_its_pattern (old, new)" and m: "well_padded m"
    using Cons.prems by (simp_all add: well_padded_def e)
  have "\<forall>v \<in> set (findall_tokens (py_replace old new s)). flush q lp v"
  proof
    fix v assume "v \<in> set (findall_tokens (py_replace old new s))"
    then have "v \<in> set (findall_tokens ([] @ py_replace old (padded old (new \<noteq> old @ '' '')) s))"
      using entry_facts(4) [OF ok] by simp
    then obtain t where "t \<in> set (findall_tokens ([] @ s))" "sublist v t"
      using sub_tokens [OF entry_facts(1) [OF ok] entry_facts(2) [OF ok], of "[]" v] by auto
    then show "flush q lp v" using Cons.prems(2) flush_sublist by auto
  qed
  then show ?case using Cons.IH [OF m] Cons.prems(3) unfolding e substituted_Cons by blast
qed

lemma flush_all:
  "well_padded m \<Longrightarrow> (old, new) \<in> set m \<Longrightarrow>
   u \<in> set (findall_tokens (substituted m s)) \<Longrightarrow> flush old (new \<noteq> old @ '' '') u"
proof (induction m arbitrary: s)
  case Nil
  then show ?case by simp
next
  case (Cons e m)
  obtain old' new' where e: "e = (old', new')" by (cases e)
  have ok: "pads_its_pattern (old', new')" and m: "well_padded m"
    using Cons.prems by (simp_all add: well_padded_def e)
  have u: "u \<in> set (findall_tokens (substituted m (py_replace old' new' s)))"
    using Cons.prems(3) unfolding e substituted_Cons .
  show ?case
  proof (cases "(old, new) = (old', new')")
    case True
    have "\<forall>v \<in> set (findall_tokens (py_replace old new s)). flush old (new \<noteq> old @ '' '') v"
    proof
      fix v assume "v \<in> set (findall_tokens (py_replace old new s))"
      then have "v \<in> set (findall_tokens ([] @ py_replace old (padded old (new \<noteq> old @ '' '')) s))"
        using entry_facts(4) [OF ok] True by simp
      then show "flush old (new \<noteq> old @ '' '') v"
        using established [OF entry_facts(1) [OF ok] entry_facts(2) [OF ok], of "[]" s v] True
        by simp
    qed
    then show ?thesis using flush_preserved [OF m] u True by blast
  next
    case False
    then have "(old, new) \<in> set m" using Cons.prems(2) e by auto
    then show ?thesis using Cons.IH [OF m _ u] by simp
  qed
qed

lemma fixed_by_all:
  "well_padded m \<Longrightarrow> \<forall>(old, new) \<in> set m. flush old (new \<noteq> old @ '' '') t \<Longrightarrow>
   findall_tokens (substituted m t) = findall_tokens t"
proof (induction m)
  case Nil
  then show ?case by (simp add: substituted_Nil)
next
  case (Cons e m)
  obtain old new where e: "e = (old, new)" by (cases e)
  have ok: "pads_its_pattern (old, new)" and m: "well_padded m"
    using Cons.prems by (simp_all add: well_padded_def e)
  have f: "flush old (new \<noteq> old @ '' '') t" using Cons.prems(2) e by auto
  have ih: "findall_tokens (substituted m t) = findall_tokens t"
    using Cons.IH [OF m] Cons.prems(2) by simp
  let ?lp = "new \<noteq> old @ '' ''"
  have new: "new = padded old ?lp" by (rule entry_facts(4) [OF ok])
  from fixed_token [OF entry_facts(1) [OF ok] f]
  consider "py_replace old new t = t"
    | "py_replace old new t = (if ?lp then '' '' else []) @ t @ '' ''"
    using new by auto
  then show ?case
  proof cases
    case 1
    then show ?thesis unfolding e substituted_Cons using ih by simp
  next
    case 2
    have a: "substituted m (t @ CHR '' '' # []) = substituted m t @ '' ''"
      using substituted_local [OF m, of t "[]"] substituted_empty [OF m] by simp
    have b: "substituted m ([] @ CHR '' '' # (t @ '' '')) = CHR '' '' # substituted m t @ '' ''"
      using substituted_local [OF m, of "[]" "t @ '' ''"] substituted_empty [OF m] a by simp
    have "findall_tokens (substituted m (py_replace old new t)) = findall_tokens (substituted m t)"
    proof (cases ?lp)
      case True
      then have "substituted m (py_replace old new t) = CHR '' '' # substituted m t @ '' ''"
        using 2 b by simp
      then show ?thesis
        using findall_tokens_space [of "CHR '' '' # substituted m t" "[]"] space_isspace by simp
    next
      case False
      then have "substituted m (py_replace old new t) = substituted m t @ '' ''"
        using 2 a by simp
      then show ?thesis
        using findall_tokens_space [of "substituted m t" "[]"] by simp
    qed
    then show ?thesis unfolding e substituted_Cons using ih by simp
  qed
qed

lemma tokens_of_join:
  "well_padded m \<Longrightarrow>
   findall_tokens (substituted m (py_join '' '' ts)) =
     concat (map (\<lambda>t. findall_tokens (substituted m t)) ts)"
proof (induction "'' ''" ts rule: py_join.induct)
  case 1
  then show ?case by (simp add: substituted_empty)
next
  case (2 x)
  then show ?case by simp
next
  case (3 x y ys)
  have "substituted m (x @ CHR '' '' # py_join '' '' (y # ys)) =
      substituted m x @ CHR '' '' # substituted m (py_join '' '' (y # ys))"
    using "3.prems" by (rule substituted_local)
  then show ?case using "3.hyps" "3.prems" by (simp add: findall_tokens_space)
qed

lemma normalization_idempotent_when_well_padded:
  assumes m: "well_padded m"
  shows "preprocess_file_content_and_generate_token_list_by_mapping
       (py_join '' '' (preprocess_file_content_and_generate_token_list_by_mapping text m)) m =
     preprocess_file_content_and_generate_token_list_by_mapping text m"
proof -
  let ?T = "findall_tokens (substituted m text)"
  have "findall_tokens (substituted m t) = [t]" if t: "t \<in> set ?T" for t
  proof -
    have "\<forall>(old, new) \<in> set m. flush old (new \<noteq> old @ '' '') t"
      using flush_all [OF m _ t] by auto
    then have "findall_tokens (substituted m t) = findall_tokens t"
      using fixed_by_all [OF m] by blast
    then show ?thesis using findall_tokens_token [OF t] by simp
  qed
  then have "concat (map (\<lambda>t. findall_tokens (substituted m t)) ?T) = concat (map (\<lambda>t. [t]) ?T)"
    by (intro arg_cong [where f = concat] map_cong) auto
  also have "\<dots> = ?T" by (induction ?T) auto
  finally show ?thesis
    unfolding preprocess_substituted tokens_of_join [OF m] .
qed

lemma parser_maps_well_padded:
  "well_padded vbnet_token_mappings" "well_padded csharp_token_mappings"
  "well_padded scss_token_mappings" "well_padded json_token_mappings"
  "well_padded twig_token_mappings" "well_padded css_token_mappings"
  by code_simp+

text \<open>
  C6, as the claim states it, fails for the token map of the XML parser: its entry for
  \<open>!--\<close> writes a \<open><\<close> into the text after the entry for \<open><\<close> has been applied. The text
  \<open>!--\<close> is normalized to the tokens \<open><!\<close> and \<open>--\<close>; normalizing these, joined by a
  blank, gives the three tokens \<open><\<close>, \<open>!\<close> and \<open>--\<close>.
\<close>

theorem C6_xml_map_not_idempotent_counterexample:
  "preprocess_file_content_and_generate_token_list_by_mapping ''!--'' xml_token_mappings =
     [''<!'', ''--''] \<and>
   preprocess_file_content_and_generate_token_list_by_mapping
     (py_join '' '' (preprocess_file_content_and_generate_token_list_by_mapping ''!--''
        xml_token_mappings)) xml_token_mappings = [''<'', ''!'', ''--''] \<and>
   preprocess_file_content_and_generate_token_list_by_mapping
     (py_join '' '' (preprocess_file_content_and_generate_token_list_by_mapping ''!--''
        xml_token_mappings)) xml_token_mappings \<noteq>
   preprocess_file_content_and_generate_token_list_by_mapping ''!--'' xml_token_mappings"
  by code_simp

text \<open>
  C6, amended: for the token maps of the VB.NET, C#, SCSS, JSON, Twig and CSS parsers and
  every input text, token normalization is idempotent on already-normalized output:
  applying the tokenizer to the tokens of a first application, joined by blanks, yields
  the same tokens again. (Each entry of these maps replaces a pattern by the same pattern
  with blanks around it, or after it.)
\<close>

theorem C6_normalization_idempotent:
  "m \<in> set [vbnet_token_mappings, csharp_token_mappings, scss_token_mappings,
             json_token_mappings, twig_token_mappings, css_token_mappings] \<Longrightarrow>
   preprocess_file_content_and_generate_token_list_by_mapping
       (py_join '' '' (preprocess_file_content_and_generate_token_list_by_mapping text m)) m =
     preprocess_file_content_and_generate_token_list_by_mapping text m"
  using parser_maps_well_padded
  by (auto intro: normalization_idempotent_when_well_padded)

theorem C6_normalization_idempotent_witness:
  "preprocess_file_content_and_generate_token_list_by_mapping ''a{b:c}/*x*/@import:y,z''
     css_token_mappings =
     [''a'', ''{'', ''b'', '':'', ''c'', ''}'', ''/*'', ''x'', ''*/'', ''@import'', '':'', ''y'',
      '','', ''z''] \<and>
   preprocess_file_content_and_generate_token_list_by_mapping
     (py_join '' '' [''a'', ''{'', ''b'', '':'', ''c'', ''}'', ''/*'', ''x'', ''*/'', ''@import'',
        '':'', ''y'', '','', ''z'']) css_token_mappings =
     [''a'', ''{'', ''b'', '':'', ''c'', ''}'', ''/*'', ''x'', ''*/'', ''@import'', '':'', ''y'',
      '','', ''z'']"
proof -
  have toks: "preprocess_file_content_and_generate_token_list_by_mapping
     ''a{b:c}/*x*/@import:y,z'' css_token_mappings =
     [''a'', ''{'', ''b'', '':'', ''c'', ''}'', ''/*'', ''x'', ''*/'', ''@import'', '':'', ''y'',
      '','', ''z'']"
    by code_simp
  have mem: "css_token_mappings \<in> set [vbnet_token_mappings, csharp_token_mappings,
      scss_token_mappings, json_token_mappings, twig_token_mappings, css_token_mappings]"
    by simp
  show ?thesis
    using C6_normalization_idempotent [OF mem, of "''a{b:c}/*x*/@import:y,z''"]
    unfolding toks by simp
qed

end
